theory Spec2Isabelle
  imports Complex_Main
begin

section \<open>Live subtitles overlay: the audio-to-caption pipeline of live_subs_mac.py\<close>

text \<open>
  The development embeds the pure and the stateful parts of \<^verbatim>\<open>src/live_subs_mac.py\<close>:
  the linear resampler \<^verbatim>\<open>simple_resample\<close>, the capture callback and its queue, the
  loop body of \<^verbatim>\<open>asr_thread\<close> (rolling buffer, window extraction, transcription call,
  hand-off of the text) and the caption list kept by \<^verbatim>\<open>OverlayApp._tick\<close>.

  Conventions of the embedding.
  \<^item> Audio samples are exact real numbers, and so is the interpolation between them:
    \<^verbatim>\<open>float32\<close>/\<^verbatim>\<open>float64\<close> rounding of sample values, NaN and infinite samples are
    outside the model, and \<^verbatim>\<open>astype\<close> is the identity.
  \<^item> The floats that decide a length are binary64 values: the resampler's ratio and
    output length are computed with the conversions, the division and the product
    rounded to nearest, ties to even, and with the exceptions Python raises for them.
    The window lengths computed from the configuration (40000 and 144000) are exact
    in binary64.
  \<^item> Memory is unbounded: an array of any length can be created.
  \<^item> A raise is a value \<open>Inl e\<close> of a sum type, a normal return is \<open>Inr v\<close>.
  \<^item> A thread's loop is a recursion over the finite list of items it receives before the
    \<^verbatim>\<open>terminate\<close> event is set.
\<close>

subsection \<open>Python and numpy primitives\<close>

datatype py_error = ZeroDivisionError | OverflowError | ValueError | EngineError

text \<open>\<^verbatim>\<open>round(x)\<close> of Python 3 on a float: to the nearest integer, ties to the even one.\<close>

definition py_round :: "real \<Rightarrow> int" where
  "py_round r =
     (let f = \<lfloor>r\<rfloor>; d = r - of_int f
      in if d < 1 / 2 then f
         else if 1 / 2 < d then f + 1
         else if even f then f else f + 1)"

text \<open>\<^verbatim>\<open>int(x)\<close> on a float truncates towards zero.\<close>

definition py_int :: "real \<Rightarrow> int" where
  "py_int r = (if 0 \<le> r then \<lfloor>r\<rfloor> else \<lceil>r\<rceil>)"

text \<open>
  Binary64 rounding. For a positive \<open>x\<close>, \<open>ilog2 x\<close> is the exponent \<open>e\<close> with
  \<open>2\<^sup>e \<le> x < 2\<^sup>e\<^sup>+\<^sup>1\<close>, found by halving or doubling and looked for between -1074 and
  1024 only. A float has 53 significant bits and no bit below \<open>2\<^sup>-\<^sup>1\<^sup>0\<^sup>7\<^sup>4\<close>, so the last
  place of \<open>x\<close> has the exponent \<open>ulp_exp x\<close>, and \<open>fl64 x\<close> is the multiple of that power
  of two nearest to \<open>x\<close>, the even one at a tie. A value of magnitude \<open>2\<^sup>1\<^sup>0\<^sup>2\<^sup>4\<close> or more
  is no finite float: the operation that produces it overflows.
\<close>

fun halvings :: "nat \<Rightarrow> real \<Rightarrow> nat" where
  "halvings 0 x = 0"
| "halvings (Suc n) x = (if x < 2 then 0 else Suc (halvings n (x / 2)))"

fun doublings :: "nat \<Rightarrow> real \<Rightarrow> nat" where
  "doublings 0 x = 0"
| "doublings (Suc n) x = (if 1 \<le> x then 0 else Suc (doublings n (x * 2)))"

definition ilog2 :: "real \<Rightarrow> int" where
  "ilog2 x = (if 1 \<le> x then int (halvings 1024 x) else - int (doublings 1074 x))"

definition ulp_exp :: "real \<Rightarrow> int" where
  "ulp_exp x = max (ilog2 \<bar>x\<bar> - 52) (- 1074)"

definition fl64 :: "real \<Rightarrow> real" where
  "fl64 x = of_int (py_round (x / 2 powi ulp_exp x)) * 2 powi ulp_exp x"

text \<open>
  \<^verbatim>\<open>float(n)\<close>, and the conversion of an \<^verbatim>\<open>int\<close> operand of a float operation: the nearest
  float, or \<^verbatim>\<open>OverflowError\<close> when that is not finite.
\<close>

definition float_of_int :: "int \<Rightarrow> py_error + real" where
  "float_of_int n =
     (if 2 ^ 1024 \<le> \<bar>fl64 (of_int n)\<bar> then Inl OverflowError else Inr (fl64 (of_int n)))"

text \<open>
  The slice \<^verbatim>\<open>x[-n:]\<close> for a non-negative \<open>n\<close>: the last \<open>n\<close> items, everything when
  there are fewer, and (since \<^verbatim>\<open>-0\<close> is \<^verbatim>\<open>0\<close>) everything when \<open>n = 0\<close>.
\<close>

definition py_tail :: "nat \<Rightarrow> 'a list \<Rightarrow> 'a list" where
  "py_tail n xs = (if n = 0 then xs else drop (length xs - n) xs)"

text \<open>
  \<^verbatim>\<open>np.linspace(0, 1, num=n)\<close>: \<open>n\<close> evenly spaced points from 0 to 1, the single point
  0 when \<open>n = 1\<close>.
\<close>

definition linspace01 :: "nat \<Rightarrow> real list" where
  "linspace01 n =
     (if n = 1 then [0] else map (\<lambda>i. real i / real (n - 1)) [0..<n])"

text \<open>
  \<^verbatim>\<open>np.interp(x, xp, fp)\<close> at one point. \<open>interp_seg\<close> walks the knots from the left,
  knowing that \<open>x\<close> is not left of the first one: it finds the segment
  \<open>x0 \<le> x < x1\<close> and interpolates \<^verbatim>\<open>slope*(x - x0) + y0\<close> there (returning \<open>y0\<close> itself
  at a knot), and returns the last value at or beyond the last knot.
\<close>

fun interp_seg :: "real \<Rightarrow> (real \<times> real) list \<Rightarrow> real" where
  "interp_seg x [] = 0"
| "interp_seg x [(x0, y0)] = y0"
| "interp_seg x ((x0, y0) # (x1, y1) # ps) =
     (if x < x1
      then (if x = x0 then y0 else (y1 - y0) / (x1 - x0) * (x - x0) + y0)
      else interp_seg x ((x1, y1) # ps))"

definition interp_at :: "real list \<Rightarrow> real list \<Rightarrow> real \<Rightarrow> real" where
  "interp_at xp fp x = (if x < hd xp then hd fp else interp_seg x (zip xp fp))"

text \<open>
  The whole call: numpy raises \<^verbatim>\<open>ValueError\<close> when the sample points are empty or
  \<^verbatim>\<open>xp\<close> and \<^verbatim>\<open>fp\<close> differ in length.
\<close>

definition np_interp :: "real list \<Rightarrow> real list \<Rightarrow> real list \<Rightarrow> py_error + real list" where
  "np_interp xs xp fp =
     (if xp = [] \<or> length xp \<noteq> length fp then Inl ValueError
      else Inr (map (interp_at xp fp) xs))"

subsection \<open>The resampler\<close>

text \<open>
  Lines 73-74 of \<^verbatim>\<open>simple_resample\<close>:
  \<^verbatim>\<open>ratio = dst_sr / float(src_sr); dst_len = int(round(len(x) * ratio))\<close>.
  \<^verbatim>\<open>float(src_sr)\<close> is converted first, then the operand \<^verbatim>\<open>dst_sr\<close>; a division by the
  float 0 raises \<^verbatim>\<open>ZeroDivisionError\<close>. The length is converted for the product, and
  \<^verbatim>\<open>round\<close> raises \<^verbatim>\<open>OverflowError\<close> on an infinite product (the lengths passed here are
  positive, so an infinite ratio gives an infinite product).
\<close>

definition resample_dst_len :: "nat \<Rightarrow> int \<Rightarrow> int \<Rightarrow> py_error + int" where
  "resample_dst_len len_x src_sr dst_sr =
     (case float_of_int src_sr of
        Inl e \<Rightarrow> Inl e
      | Inr fs \<Rightarrow>
          (case float_of_int dst_sr of
             Inl e \<Rightarrow> Inl e
           | Inr fd \<Rightarrow>
               if fs = 0 then Inl ZeroDivisionError
               else
                 let ratio = fl64 (fd / fs)
                 in case float_of_int (int len_x) of
                      Inl e \<Rightarrow> Inl e
                    | Inr fn \<Rightarrow>
                        let prod = fl64 (fn * ratio)
                        in if 2 ^ 1024 \<le> \<bar>ratio\<bar> \<or> 2 ^ 1024 \<le> \<bar>prod\<bar>
                           then Inl OverflowError
                           else Inr (py_round prod)))"

text \<open>\<^verbatim>\<open>simple_resample(x, src_sr, dst_sr)\<close>, lines 68-81.\<close>

definition simple_resample :: "real list \<Rightarrow> int \<Rightarrow> int \<Rightarrow> py_error + real list" where
  "simple_resample x src_sr dst_sr =
     (if src_sr = dst_sr \<or> length x = 0 then Inr x
      else
        case resample_dst_len (length x) src_sr dst_sr of
          Inl e \<Rightarrow> Inl e
        | Inr dst_len \<Rightarrow>
            if dst_len \<le> 1 then Inr (take 1 x)
            else
              let xp = linspace01 (length x);
                  fp = x;
                  x_new = linspace01 (nat dst_len)
              in np_interp x_new xp fp)"

subsection \<open>Strings\<close>

text \<open>
  Captions are strings over the code points below 256. \<^verbatim>\<open>str.strip()\<close> removes leading
  and trailing whitespace; among these code points \<^verbatim>\<open>str.isspace\<close> holds of 9-13, 28-32,
  133 and 160.
\<close>

definition isspace :: "char \<Rightarrow> bool" where
  "isspace c =
     (c \<in> set [CHR 0x09, CHR 0x0A, CHR 0x0B, CHR 0x0C, CHR 0x0D,
                CHR 0x1C, CHR 0x1D, CHR 0x1E, CHR 0x1F, CHR 0x20, CHR 0x85, CHR 0xA0])"

definition strip :: "string \<Rightarrow> string" where
  "strip s = rev (dropWhile isspace (rev (dropWhile isspace s)))"

text \<open>\<^verbatim>\<open>sep.join(parts)\<close>.\<close>

fun join_with :: "string \<Rightarrow> string list \<Rightarrow> string" where
  "join_with sep [] = []"
| "join_with sep [x] = x"
| "join_with sep (x # y # ys) = x @ sep @ join_with sep (y # ys)"

subsection \<open>Configuration\<close>

definition TARGET_SR :: int where
  "TARGET_SR = 16000"

definition BLOCK_SEC :: real where
  "BLOCK_SEC = 5 / 2"

definition OVERLAP_SEC :: real where
  "OVERLAP_SEC = 1 / 2"

definition KEEP_LINES :: nat where
  "KEEP_LINES = 4"

subsection \<open>Queues and the capture callback\<close>

text \<open>
  \<^verbatim>\<open>queue.Queue(maxsize)\<close>: a FIFO whose \<^verbatim>\<open>put\<close> waits while the queue is full, and a
  queue is full only when \<^verbatim>\<open>maxsize\<close> is positive and reached. \<open>queue_put\<close> is \<open>None\<close>
  where the call would wait. \<^verbatim>\<open>queue.Queue()\<close> has \<^verbatim>\<open>maxsize = 0\<close>.
\<close>

record 'a py_queue =
  maxsize :: nat
  items :: "'a list"

definition queue_full :: "'a py_queue \<Rightarrow> bool" where
  "queue_full q = (0 < maxsize q \<and> maxsize q \<le> length (items q))"

definition queue_put :: "'a py_queue \<Rightarrow> 'a \<Rightarrow> 'a py_queue option" where
  "queue_put q x = (if queue_full q then None else Some (q\<lparr>items := items q @ [x]\<rparr>))"

definition Queue :: "'a py_queue" where
  "Queue = \<lparr>maxsize = 0, items = []\<rparr>"

text \<open>
  A block of audio as the stream delivers it: \<^verbatim>\<open>frames\<close> rows of \<^verbatim>\<open>channels\<close> samples
  (\<^verbatim>\<open>ndim == 2\<close>), or a flat array.
\<close>

datatype block = Frames2D "real list list" | Frames1D "real list"

text \<open>Line 84: \<^verbatim>\<open>raw_q = queue.Queue()\<close>.\<close>

definition raw_q_init :: "block py_queue" where
  "raw_q_init = Queue"

text \<open>
  \<^verbatim>\<open>audio_callback\<close>, lines 164-167: \<^verbatim>\<open>raw_q.put(indata.copy())\<close> (the status line it may
  print is not modelled).
\<close>

definition audio_callback :: "block py_queue \<Rightarrow> block \<Rightarrow> block py_queue option" where
  "audio_callback raw_q indata = queue_put raw_q indata"

text \<open>A run of callbacks, one per delivered block, with no consumer in between.\<close>

fun audio_callbacks :: "block py_queue \<Rightarrow> block list \<Rightarrow> block py_queue option" where
  "audio_callbacks raw_q [] = Some raw_q"
| "audio_callbacks raw_q (b # bs) =
     (case audio_callback raw_q b of None \<Rightarrow> None | Some q \<Rightarrow> audio_callbacks q bs)"

text \<open>
  \<^verbatim>\<open>audio_thread\<close>, lines 169-174: the stream is opened at the device's own default
  rate.
\<close>

record device_info =
  default_samplerate :: real
  max_input_channels :: int

definition audio_thread_src_sr :: "device_info \<Rightarrow> int" where
  "audio_thread_src_sr dev_info = py_int (default_samplerate dev_info)"

definition audio_thread_channels :: "device_info \<Rightarrow> int" where
  "audio_thread_channels dev_info =
     (let c = min 2 (max_input_channels dev_info) in if c = 0 then 1 else c)"

definition audio_thread_blocksize :: "device_info \<Rightarrow> int" where
  "audio_thread_blocksize dev_info = py_int (real_of_int (audio_thread_src_sr dev_info) * (5 / 100))"

subsection \<open>The transcription call\<close>

text \<open>
  The loaded model is external. Its \<^verbatim>\<open>transcribe\<close> is a parameter: given the number of
  calls made before and the window, it raises or returns the texts of its segments
  (faster-whisper; a segment's text may be \<^verbatim>\<open>None\<close>) or the text of its result
  (openai-whisper; the key may be absent).
\<close>

datatype asr_model =
    FasterWhisper "nat \<Rightarrow> real list \<Rightarrow> py_error + string option list"
  | OpenaiWhisper "nat \<Rightarrow> real list \<Rightarrow> py_error + string option"
  | NoBackend

definition or_empty :: "string option \<Rightarrow> string" where
  "or_empty t = (case t of None \<Rightarrow> [] | Some s \<Rightarrow> s)"

text \<open>\<^verbatim>\<open>asr_transcribe_chunk\<close>, lines 131-159.\<close>

definition asr_transcribe_chunk :: "asr_model \<Rightarrow> nat \<Rightarrow> real list \<Rightarrow> py_error + string" where
  "asr_transcribe_chunk m k mono16k =
     (case m of
        FasterWhisper transcribe \<Rightarrow>
          (case transcribe k mono16k of
             Inl e \<Rightarrow> Inl e
           | Inr segments \<Rightarrow>
               Inr (strip (join_with [CHR 0x20]
                      (filter (\<lambda>t. t \<noteq> []) (map (\<lambda>seg. strip (or_empty seg)) segments)))))
      | OpenaiWhisper transcribe \<Rightarrow>
          (case transcribe k mono16k of
             Inl e \<Rightarrow> Inl e
           | Inr text \<Rightarrow> Inr (strip (or_empty text)))
      | NoBackend \<Rightarrow> Inr [])"

subsection \<open>The recognition thread\<close>

text \<open>Lines 193-196 and 215: the locals computed from the configuration.\<close>

definition target_block :: nat where
  "target_block = nat (py_int (real_of_int TARGET_SR * BLOCK_SEC))"

definition approx_src_sr :: int where
  "approx_src_sr = 48000"

definition need_src_len :: nat where
  "need_src_len = nat (py_int ((BLOCK_SEC + OVERLAP_SEC) * real_of_int approx_src_sr))"

text \<open>Lines 204-207: a two-dimensional block is averaged over its channels.\<close>

definition to_mono :: "block \<Rightarrow> real list" where
  "to_mono blk =
     (case blk of
        Frames2D rows \<Rightarrow> map (\<lambda>row. sum_list row / real (length row)) rows
      | Frames1D xs \<Rightarrow> xs)"

text \<open>Lines 209-213: append to the rolling buffer, then cut it to its last minute.\<close>

definition append_trim :: "real list \<Rightarrow> block \<Rightarrow> real list" where
  "append_trim src_buffer blk =
     (let b = src_buffer @ to_mono blk
      in if 48000 * 60 < length b then py_tail (48000 * 60) b else b)"

text \<open>
  Lines 215-220: the window handed to the transcription call, when the buffer is long
  enough; \<open>None\<close> when it is not, \<open>Some (Inl e)\<close> when the resampler raises.
\<close>

definition extract_window :: "real list \<Rightarrow> (py_error + real list) option" where
  "extract_window src_buffer =
     (if need_src_len \<le> length src_buffer
      then Some
        (case simple_resample (py_tail need_src_len src_buffer) approx_src_sr TARGET_SR of
           Inl e \<Rightarrow> Inl e
         | Inr mono16k \<Rightarrow>
             Inr (if target_block \<le> length mono16k then py_tail target_block mono16k
                  else mono16k))
      else None)"

text \<open>
  The state of the loop: its buffer, the texts put on \<^verbatim>\<open>text_q\<close> and not yet taken, and
  the number of transcription calls made.
\<close>

record asr_state =
  src_buffer :: "real list"
  text_q :: "string list"
  calls :: nat

definition asr_init :: asr_state where
  "asr_init = \<lparr>src_buffer = [], text_q = [], calls = 0\<rparr>"

text \<open>Lines 221-223: a non-empty text is put on the queue.\<close>

definition put_text :: "asr_state \<Rightarrow> string \<Rightarrow> asr_state" where
  "put_text st text =
     st\<lparr>text_q := (if text \<noteq> [] then text_q st @ [text] else text_q st),
        calls := Suc (calls st)\<rparr>"

text \<open>
  One iteration of the loop on the block \<^verbatim>\<open>raw_q.get\<close> returned, lines 204-223. Nothing
  in the loop catches an exception: a raise leaves the iteration, and the loop.
\<close>

definition asr_step :: "asr_model \<Rightarrow> asr_state \<Rightarrow> block \<Rightarrow> py_error + asr_state" where
  "asr_step m st blk =
     (let buf = append_trim (src_buffer st) blk
      in case extract_window buf of
           None \<Rightarrow> Inr (st\<lparr>src_buffer := buf\<rparr>)
         | Some (Inl e) \<Rightarrow> Inl e
         | Some (Inr mono16k) \<Rightarrow>
             (case asr_transcribe_chunk m (calls st) mono16k of
                Inl e \<Rightarrow> Inl e
              | Inr text \<Rightarrow> Inr (put_text (st\<lparr>src_buffer := buf\<rparr>) text)))"

text \<open>
  \<^verbatim>\<open>asr_thread\<close>, lines 190-225, over the blocks it gets in order. The result is the
  exception that ended the thread, if one did, and the state the loop had reached (at an
  exception: the state before the iteration that raised).
\<close>

fun asr_thread :: "asr_model \<Rightarrow> asr_state \<Rightarrow> block list \<Rightarrow> py_error option \<times> asr_state" where
  "asr_thread m st [] = (None, st)"
| "asr_thread m st (blk # blks) =
     (case asr_step m st blk of
        Inl e \<Rightarrow> (Some e, st)
      | Inr st' \<Rightarrow> asr_thread m st' blks)"

subsection \<open>The caption list\<close>

text \<open>\<^verbatim>\<open>OverlayApp._tick\<close>, lines 306-317: the body of its loop for one queued text.\<close>

definition tick_item :: "string list \<Rightarrow> string \<Rightarrow> string list" where
  "tick_item lines t =
     (if strip t \<noteq> []
      then (let ls = lines @ [strip t]
            in if KEEP_LINES < length ls then py_tail KEEP_LINES ls else ls)
      else lines)"

text \<open>The loop empties the queue; the label then shows the lines joined by newlines.\<close>

definition tick :: "string list \<Rightarrow> string list \<Rightarrow> string list" where
  "tick lines queued = foldl tick_item lines queued"

definition caption_text :: "string list \<Rightarrow> string" where
  "caption_text lines = join_with [CHR 0x0A] lines"

subsection \<open>The threads together\<close>

text \<open>
  \<^verbatim>\<open>main\<close> starts one capture thread, one recognition thread and the window's timer.
  Their interleaving is a schedule of events. The recognition thread is either between two
  transcription calls, inside one (with the window it passed), or ended by an exception.
  The counter \<open>depth\<close> is what an engine that counts the calls it is executing would
  hold: up at the call, down at its return or raise; \<open>max_depth\<close> is the largest value it
  has had.
\<close>

datatype worker_pc = Idle | InCall "real list" | Dead py_error

datatype event = Callback block | AsrPoll | EngineDone | GuiTick

record sys =
  raw_q :: "block py_queue"
  worker :: asr_state
  pc :: worker_pc
  depth :: nat
  max_depth :: nat
  caption_lines :: "string list"

definition sys_init :: sys where
  "sys_init =
     \<lparr>raw_q = raw_q_init, worker = asr_init, pc = Idle, depth = 0, max_depth = 0,
      caption_lines = []\<rparr>"

text \<open>
  One event; \<open>None\<close> when the event cannot happen in the state (a callback that would
  wait, a thread that is not at that point of its code).
  \<^item> \<open>Callback\<close>: the capture callback runs.
  \<^item> \<open>AsrPoll\<close>: the recognition thread, between calls, runs \<^verbatim>\<open>raw_q.get\<close>; on a block it
    runs the iteration up to the transcription call and enters it when there is a window.
  \<^item> \<open>EngineDone\<close>: the call in flight returns or raises, and the iteration ends.
  \<^item> \<open>GuiTick\<close>: the timer runs \<^verbatim>\<open>_tick\<close>.
\<close>

definition sys_step :: "asr_model \<Rightarrow> sys \<Rightarrow> event \<Rightarrow> sys option" where
  "sys_step m s ev =
     (case ev of
        Callback blk \<Rightarrow>
          (case audio_callback (raw_q s) blk of
             None \<Rightarrow> None
           | Some q \<Rightarrow> Some (s\<lparr>raw_q := q\<rparr>))
      | AsrPoll \<Rightarrow>
          (if pc s \<noteq> Idle then None
           else case items (raw_q s) of
                  [] \<Rightarrow> Some s
                | blk # rest \<Rightarrow>
                    (let buf = append_trim (src_buffer (worker s)) blk;
                         s1 = s\<lparr>raw_q := (raw_q s)\<lparr>items := rest\<rparr>,
                                worker := (worker s)\<lparr>src_buffer := buf\<rparr>\<rparr>
                     in case extract_window buf of
                          None \<Rightarrow> Some s1
                        | Some (Inl e) \<Rightarrow> Some (s1\<lparr>pc := Dead e\<rparr>)
                        | Some (Inr mono16k) \<Rightarrow>
                            Some (s1\<lparr>pc := InCall mono16k, depth := depth s + 1,
                                     max_depth := max (max_depth s) (depth s + 1)\<rparr>)))
      | EngineDone \<Rightarrow>
          (case pc s of
             InCall mono16k \<Rightarrow>
               (case asr_transcribe_chunk m (calls (worker s)) mono16k of
                  Inl e \<Rightarrow> Some (s\<lparr>pc := Dead e, depth := depth s - 1\<rparr>)
                | Inr text \<Rightarrow>
                    Some (s\<lparr>pc := Idle, depth := depth s - 1,
                            worker := put_text (worker s) text\<rparr>))
           | _ \<Rightarrow> None)
      | GuiTick \<Rightarrow>
          Some (s\<lparr>caption_lines := tick (caption_lines s) (text_q (worker s)),
                  worker := (worker s)\<lparr>text_q := []\<rparr>\<rparr>))"

fun run :: "asr_model \<Rightarrow> sys \<Rightarrow> event list \<Rightarrow> sys option" where
  "run m s [] = Some s"
| "run m s (ev # evs) =
     (case sys_step m s ev of None \<Rightarrow> None | Some s' \<Rightarrow> run m s' evs)"

text \<open>
  What holds of every state the threads can reach: the capture queue is unbounded, the
  counter is 1 exactly while a call is in flight, it has never been above 1, and a window
  in flight has 40000 samples.
\<close>

definition sys_inv :: "sys \<Rightarrow> bool" where
  "sys_inv s =
     (maxsize (raw_q s) = 0
      \<and> depth s = (case pc s of InCall w \<Rightarrow> 1 | _ \<Rightarrow> 0)
      \<and> max_depth s \<le> 1
      \<and> (case pc s of InCall w \<Rightarrow> length w = 40000 | _ \<Rightarrow> True))"

subsection \<open>Facts about the primitives\<close>

lemma py_round_of_int: "py_round (of_int n) = n"
  by (simp add: py_round_def)

lemma py_tail_length: "length (py_tail n xs) = (if n = 0 then length xs else min n (length xs))"
  by (auto simp: py_tail_def)

lemma length_linspace01: "length (linspace01 n) = n"
  by (simp add: linspace01_def)

lemma convex_between:
  fixes a b t lo hi :: real
  assumes "lo \<le> a" "a \<le> hi" "lo \<le> b" "b \<le> hi" "0 \<le> t" "t \<le> 1"
  shows "lo \<le> (b - a) * t + a \<and> (b - a) * t + a \<le> hi"
proof -
  have eq: "(b - a) * t + a = (1 - t) * a + t * b"
    by (simp add: algebra_simps)
  have up: "(1 - t) * a + t * b \<le> hi"
    using assms by (intro convex_bound_le) simp_all
  have "(1 - t) * (- a) + t * (- b) \<le> - lo"
    using assms by (intro convex_bound_le) simp_all
  then have low: "lo \<le> (1 - t) * a + t * b"
    by simp
  from eq up low show ?thesis
    by simp
qed

lemma interp_seg_between:
  assumes "\<forall>p \<in> set ps. lo \<le> snd p \<and> snd p \<le> hi" "ps \<noteq> []" "fst (hd ps) \<le> x"
  shows "lo \<le> interp_seg x ps \<and> interp_seg x ps \<le> hi"
  using assms
proof (induction x ps rule: interp_seg.induct)
  case (1 x)
  then show ?case by simp
next
  case (2 x x0 y0)
  then show ?case by simp
next
  case (3 x x0 y0 x1 y1 ps)
  show ?case
  proof (cases "x < x1")
    case False
    with 3 show ?thesis by simp
  next
    case True
    show ?thesis
    proof (cases "x = x0")
      case True
      with \<open>x < x1\<close> 3 show ?thesis by simp
    next
      case False
      from 3 have le: "x0 \<le> x" by simp
      with \<open>x < x1\<close> have pos: "0 < x1 - x0" by simp
      define t where "t = (x - x0) / (x1 - x0)"
      have t0: "0 \<le> t" and t1: "t \<le> 1"
        using le \<open>x < x1\<close> pos by (simp_all add: t_def)
      have val: "interp_seg x ((x0, y0) # (x1, y1) # ps) = (y1 - y0) * t + y0"
        using \<open>x < x1\<close> \<open>x \<noteq> x0\<close> by (simp add: t_def)
      from 3 have "lo \<le> y0" "y0 \<le> hi" "lo \<le> y1" "y1 \<le> hi" by simp_all
      from convex_between [OF this t0 t1] val show ?thesis by simp
    qed
  qed
qed

lemma interp_at_between:
  assumes "\<forall>v \<in> set fp. lo \<le> v \<and> v \<le> hi" "xp \<noteq> []" "length xp = length fp"
  shows "lo \<le> interp_at xp fp x \<and> interp_at xp fp x \<le> hi"
proof (cases "x < hd xp")
  case True
  from assms have "fp \<noteq> []" by auto
  then have "hd fp \<in> set fp" by simp
  with assms True show ?thesis by (simp add: interp_at_def)
next
  case False
  from assms have ne: "zip xp fp \<noteq> []" by (cases xp; cases fp) simp_all
  have vals: "\<forall>p \<in> set (zip xp fp). lo \<le> snd p \<and> snd p \<le> hi"
    using assms(1) by (auto dest: set_zip_rightD)
  have "fst (hd (zip xp fp)) = hd xp"
    using assms by (cases xp; cases fp) simp_all
  with False have "fst (hd (zip xp fp)) \<le> x" by simp
  from interp_seg_between [OF vals ne this] False show ?thesis
    by (simp add: interp_at_def)
qed

subsection \<open>Facts about binary64 rounding and the output length\<close>

lemma halvings_unfold:
  "halvings n x = (if n = 0 \<or> x < 2 then 0 else Suc (halvings (n - 1) (x / 2)))"
  by (cases n) simp_all

lemma doublings_unfold:
  "doublings n x = (if n = 0 \<or> 1 \<le> x then 0 else Suc (doublings (n - 1) (x * 2)))"
  by (cases n) simp_all

lemma py_round_err: "\<bar>of_int (py_round r) - r\<bar> \<le> 1 / 2"
  unfolding py_round_def Let_def by (auto simp: abs_le_iff)

lemma halvings_spec:
  "1 \<le> x \<Longrightarrow> x < 2 ^ Suc n \<Longrightarrow> 2 ^ halvings n x \<le> x \<and> x < 2 ^ Suc (halvings n x)"
proof (induction n arbitrary: x)
  case 0
  then show ?case by simp
next
  case (Suc n)
  show ?case
  proof (cases "x < 2")
    case True
    with Suc.prems show ?thesis by simp
  next
    case False
    then have "1 \<le> x / 2" by simp
    moreover from Suc.prems have "x / 2 < 2 ^ Suc n" by simp
    ultimately have "2 ^ halvings n (x / 2) \<le> x / 2 \<and> x / 2 < 2 ^ Suc (halvings n (x / 2))"
      by (rule Suc.IH)
    with False show ?thesis by simp
  qed
qed

lemma doublings_spec:
  "0 < x \<Longrightarrow> x < 1 \<Longrightarrow> 1 \<le> x * 2 ^ n
     \<Longrightarrow> 1 \<le> x * 2 ^ doublings n x \<and> x * 2 ^ doublings n x < 2"
proof (induction n arbitrary: x)
  case 0
  then show ?case by simp
next
  case (Suc n)
  show ?case
  proof (cases "1 \<le> x * 2")
    case True
    then have "doublings n (x * 2) = 0" by (cases n) simp_all
    with Suc.prems True show ?thesis by simp
  next
    case False
    then have "x * 2 < 1" by simp
    moreover from Suc.prems have "0 < x * 2" "1 \<le> (x * 2) * 2 ^ n" by (simp_all add: mult.assoc)
    ultimately have "1 \<le> (x * 2) * 2 ^ doublings n (x * 2) \<and> (x * 2) * 2 ^ doublings n (x * 2) < 2"
      by (intro Suc.IH)
    with Suc.prems show ?thesis by (simp add: mult.assoc)
  qed
qed


lemma ilog2_spec:
  assumes "2 powi (- 1022) \<le> x" "x < 2 ^ 1024"
  shows "2 powi ilog2 x \<le> x \<and> x < 2 powi (ilog2 x + 1) \<and> - 1022 \<le> ilog2 x"
proof (cases "1 \<le> x")
  case True
  from assms(2) have "x < 2 ^ Suc 1024" by simp
  from halvings_spec [OF True this]
  have "2 ^ halvings 1024 x \<le> x" "x < 2 ^ Suc (halvings 1024 x)" by simp_all
  with True show ?thesis
    by (simp add: ilog2_def power_int_add)
next
  case False
  have pos: "0 < x"
    using assms(1) by (rule less_le_trans [rotated]) simp
  define k where "k = doublings 1074 x"
  have "(1 :: real) \<le> 2 powi (- 1022) * 2 ^ 1074"
    by (simp add: power_int_minus field_simps)
  also have "\<dots> \<le> x * 2 ^ 1074"
    using assms(1) by (intro mult_right_mono) simp_all
  finally have "1 \<le> x * 2 ^ 1074" .
  from doublings_spec [OF pos _ this] False
  have k: "1 \<le> x * 2 ^ k" "x * 2 ^ k < 2" by (simp_all add: k_def)
  have il: "ilog2 x = - int k"
    using False by (simp add: ilog2_def k_def)
  have lo: "2 powi (- int k) \<le> x"
    using k(1) by (simp add: power_int_minus field_simps)
  have "(2 :: real) powi (- int k + 1) = 2 powi (- int k) * 2 powi 1"
    by (rule power_int_add) simp
  then have "(2 :: real) powi (- int k + 1) = 2 / 2 ^ k"
    by (simp add: power_int_minus divide_inverse)
  then have hi: "x < 2 powi (- int k + 1)"
    using k(2) by (simp add: pos_less_divide_eq)
  have "k \<le> 1022"
  proof (rule ccontr)
    assume "\<not> k \<le> 1022"
    then have "1023 \<le> k" by simp
    then have "(2 :: real) ^ 1023 \<le> 2 ^ k" by (intro power_increasing) simp_all
    then have "x * 2 ^ 1023 \<le> x * 2 ^ k" using pos by (intro mult_left_mono) simp_all
    moreover have "2 \<le> x * 2 ^ 1023"
    proof -
      have "(2 :: real) = 2 powi (- 1022) * 2 ^ 1023"
        by (simp add: power_int_minus field_simps)
      also have "\<dots> \<le> x * 2 ^ 1023"
        using assms(1) by (intro mult_right_mono) simp_all
      finally show ?thesis .
    qed
    ultimately show False using k(2) by simp
  qed
  with lo hi il show ?thesis by simp
qed

lemma fl64_err_ulp: "\<bar>fl64 x - x\<bar> \<le> 2 powi ulp_exp x / 2"
proof -
  define q where "q = ulp_exp x"
  have pos: "(0 :: real) < 2 powi q" by simp
  have "\<bar>of_int (py_round (x / 2 powi q)) - x / 2 powi q\<bar> \<le> 1 / 2"
    by (rule py_round_err)
  then have "\<bar>of_int (py_round (x / 2 powi q)) - x / 2 powi q\<bar> * 2 powi q \<le> 1 / 2 * 2 powi q"
    using pos by (intro mult_right_mono) simp_all
  moreover have "\<bar>of_int (py_round (x / 2 powi q)) - x / 2 powi q\<bar> * 2 powi q
      = \<bar>of_int (py_round (x / 2 powi q)) * 2 powi q - x\<bar>"
  proof -
    have "\<bar>of_int (py_round (x / 2 powi q)) - x / 2 powi q\<bar> * 2 powi q
        = \<bar>(of_int (py_round (x / 2 powi q)) - x / 2 powi q) * 2 powi q\<bar>"
      using pos by (simp only: abs_mult abs_of_pos)
    also have "(of_int (py_round (x / 2 powi q)) - x / 2 powi q) * 2 powi q
        = of_int (py_round (x / 2 powi q)) * 2 powi q - x"
      using pos by (simp add: left_diff_distrib)
    finally show ?thesis .
  qed
  ultimately have "\<bar>of_int (py_round (x / 2 powi q)) * 2 powi q - x\<bar> \<le> 2 powi q / 2"
    by linarith
  then show ?thesis
    unfolding fl64_def q_def .
qed

lemma fl64_rel_err:
  assumes "2 powi (- 1022) \<le> \<bar>x\<bar>" "\<bar>x\<bar> < 2 ^ 1024"
  shows "\<bar>fl64 x - x\<bar> \<le> \<bar>x\<bar> / 2 ^ 53"
proof -
  from ilog2_spec [OF assms]
  have e: "2 powi ilog2 \<bar>x\<bar> \<le> \<bar>x\<bar>" "- 1022 \<le> ilog2 \<bar>x\<bar>" by simp_all
  from e(2) have q: "ulp_exp x = ilog2 \<bar>x\<bar> - 52" by (simp add: ulp_exp_def)
  have "(2 :: real) powi ulp_exp x / 2 = 2 powi ilog2 \<bar>x\<bar> / 2 ^ 53"
    by (simp add: q power_int_diff)
  also have "\<dots> \<le> \<bar>x\<bar> / 2 ^ 53"
    using e(1) by (intro divide_right_mono) simp_all
  finally show ?thesis using fl64_err_ulp [of x] by simp
qed

lemma fl64_exact:
  assumes "x / 2 powi ulp_exp x = of_int m"
  shows "fl64 x = x"
proof -
  have "fl64 x = of_int m * 2 powi ulp_exp x"
    by (simp add: fl64_def assms py_round_of_int)
  also have "\<dots> = x"
    using assms by (simp add: field_simps)
  finally show ?thesis .
qed

lemma fl64_of_int:
  assumes "\<bar>n\<bar> < 2 ^ 53"
  shows "fl64 (of_int n) = of_int n"
proof (cases "n = 0")
  case True
  then show ?thesis by (simp add: fl64_def py_round_def)
next
  case False
  define x :: real where "x = of_int n"
  from False have "1 \<le> \<bar>n\<bar>" by simp
  then have "(1 :: real) \<le> of_int \<bar>n\<bar>" by (simp only: of_int_1_le_iff)
  then have one: "1 \<le> \<bar>x\<bar>" by (simp add: x_def)
  from assms have "(of_int \<bar>n\<bar> :: real) < of_int (2 ^ 53)" by (simp only: of_int_less_iff)
  then have lt: "\<bar>x\<bar> < 2 ^ 53" by (simp add: x_def)
  have n1: "2 powi (- 1022) \<le> \<bar>x\<bar>"
  proof -
    have "(2 :: real) powi (- 1022) \<le> 1" by (simp add: power_int_minus field_simps)
    with one show ?thesis by simp
  qed
  have n2: "\<bar>x\<bar> < 2 ^ 1024"
  proof -
    have "(2 :: real) ^ 53 \<le> 2 ^ 1024" by (intro power_increasing) simp_all
    with lt show ?thesis by simp
  qed
  from ilog2_spec [OF n1 n2]
  have e: "2 powi ilog2 \<bar>x\<bar> \<le> \<bar>x\<bar>" by simp
  have "ilog2 \<bar>x\<bar> \<le> 52"
  proof (rule ccontr)
    assume "\<not> ilog2 \<bar>x\<bar> \<le> 52"
    then have "53 \<le> ilog2 \<bar>x\<bar>" by simp
    then have "(2 :: real) powi 53 \<le> 2 powi ilog2 \<bar>x\<bar>" by (intro power_int_increasing) simp_all
    with e lt show False by simp
  qed
  moreover have "0 \<le> ilog2 \<bar>x\<bar>"
    using one by (simp add: ilog2_def)
  ultimately obtain k :: nat where k: "ulp_exp x = - int k"
    by (simp add: ulp_exp_def) (metis add.inverse_inverse diff_ge_0_iff_ge minus_diff_eq nonneg_int_cases)
  have p: "(2 :: real) powi ulp_exp x = 1 / 2 ^ k"
    by (simp add: k power_int_minus divide_inverse)
  have "x / 2 powi ulp_exp x = x * 2 ^ k"
    by (simp add: p)
  also have "\<dots> = of_int (n * 2 ^ k)"
    by (simp add: x_def)
  finally have "x / 2 powi ulp_exp x = of_int (n * 2 ^ k)" .
  from fl64_exact [OF this] show ?thesis by (simp add: x_def)
qed

lemma float_of_int_exact:
  assumes "\<bar>n\<bar> < 2 ^ 53"
  shows "float_of_int n = Inr (of_int n)"
proof -
  from assms have "(of_int \<bar>n\<bar> :: real) < of_int (2 ^ 53)" by (simp only: of_int_less_iff)
  then have "\<bar>of_int n :: real\<bar> < 2 ^ 53" by simp
  moreover have "(2 :: real) ^ 53 \<le> 2 ^ 1024" by (intro power_increasing) simp_all
  ultimately have "\<bar>of_int n :: real\<bar> < 2 ^ 1024" by simp
  then show ?thesis
    by (simp add: float_of_int_def fl64_of_int [OF assms])
qed

lemma fl64_third: "fl64 (1 / 3) = 6004799503160661 / 2 ^ 54"
proof -
  have "ilog2 (1 / 3) = - 2"
    by (simp add: ilog2_def doublings_unfold)
  then show ?thesis
    by (simp add: fl64_def ulp_exp_def py_round_def power_int_minus)
qed

lemma fl64_span: "fl64 (144000 * (6004799503160661 / 2 ^ 54)) = 48000"
proof -
  have "ilog2 (144000 * (6004799503160661 / 2 ^ 54)) = 15"
    by (simp add: ilog2_def halvings_unfold)
  then show ?thesis
    by (simp add: fl64_def ulp_exp_def py_round_def power_int_minus)
qed

lemma fl64_ratio_third: "fl64 (16000 / 48000) = 6004799503160661 / 2 ^ 54"
  using fl64_third by simp

lemma dst_len_span: "resample_dst_len 144000 48000 16000 = Inr 48000"
proof -
  have a: "float_of_int 48000 = Inr 48000" "float_of_int 16000 = Inr 16000"
    "float_of_int (int 144000) = Inr 144000"
    using float_of_int_exact [of 48000] float_of_int_exact [of 16000]
      float_of_int_exact [of 144000] by simp_all
  have nz: "((48000 :: real) = 0) = False" by simp
  have "resample_dst_len 144000 48000 16000 =
      (if 2 ^ 1024 \<le> \<bar>6004799503160661 / 2 ^ 54 :: real\<bar> \<or> 2 ^ 1024 \<le> \<bar>48000 :: real\<bar>
       then Inl OverflowError else Inr (py_round 48000))"
    unfolding resample_dst_len_def
    by (simp only: a sum.case fl64_ratio_third fl64_span Let_def nz if_False)
  also have "\<dots> = Inr 48000"
    using py_round_of_int [of 48000] by simp
  finally show ?thesis .
qed

lemma fl64_third_again: "fl64 (1 * (6004799503160661 / 2 ^ 54)) = 6004799503160661 / 2 ^ 54"
proof -
  have "ilog2 (6004799503160661 / 2 ^ 54) = - 2"
    by (simp add: ilog2_def doublings_unfold)
  then show ?thesis
    by (simp add: fl64_def ulp_exp_def py_round_def power_int_minus)
qed

lemma dst_len_one_sample: "resample_dst_len 1 48000 16000 = Inr 0"
proof -
  have a: "float_of_int 48000 = Inr 48000" "float_of_int 16000 = Inr 16000"
    "float_of_int (int 1) = Inr 1"
    using float_of_int_exact [of 48000] float_of_int_exact [of 16000]
      float_of_int_exact [of 1] by simp_all
  have nz: "((48000 :: real) = 0) = False" by simp
  have "resample_dst_len 1 48000 16000 =
      (if 2 ^ 1024 \<le> \<bar>6004799503160661 / 2 ^ 54 :: real\<bar>
          \<or> 2 ^ 1024 \<le> \<bar>6004799503160661 / 2 ^ 54 :: real\<bar>
       then Inl OverflowError else Inr (py_round (6004799503160661 / 2 ^ 54)))"
    unfolding resample_dst_len_def
    by (simp only: a sum.case fl64_ratio_third fl64_third_again Let_def nz if_False)
  also have "\<dots> = Inr 0"
    by (simp add: py_round_def)
  finally show ?thesis .
qed








lemma fl64_zero: "fl64 0 = 0"
  by (simp add: fl64_def py_round_def)

lemma pow_bounds:
  "(2 :: real) powi (- 1022) \<le> 1 / 2 ^ 54" "(2 :: real) ^ 108 \<le> 2 ^ 1024"
proof -
  have "(2 :: real) powi (- 1022) \<le> 2 powi (- 54)"
  proof (rule power_int_increasing)
    show "(- 1022 :: int) \<le> - 54" by simp
    show "(1 :: real) \<le> 2" by simp
  qed
  also have "\<dots> = 1 / 2 ^ 54"
    by (simp add: power_int_minus field_simps)
  finally show "(2 :: real) powi (- 1022) \<le> 1 / 2 ^ 54" .
  show "(2 :: real) ^ 108 \<le> 2 ^ 1024" by (intro power_increasing) simp_all
qed

lemma fl64_near:
  assumes "1 / 2 ^ 54 \<le> \<bar>x\<bar>" "\<bar>x\<bar> < 2 ^ 108"
  shows "\<bar>fl64 x - x\<bar> \<le> \<bar>x\<bar> / 2 ^ 53" "\<bar>fl64 x\<bar> \<le> 2 * \<bar>x\<bar>" "\<bar>x\<bar> / 2 \<le> \<bar>fl64 x\<bar>"
proof -
  from assms pow_bounds have n: "2 powi (- 1022) \<le> \<bar>x\<bar>" "\<bar>x\<bar> < 2 ^ 1024" by simp_all
  from fl64_rel_err [OF n] show e: "\<bar>fl64 x - x\<bar> \<le> \<bar>x\<bar> / 2 ^ 53" .
  have "\<bar>x\<bar> / 2 ^ 53 \<le> \<bar>x\<bar> / 2"
    by (intro divide_left_mono) simp_all
  with e have e2: "\<bar>fl64 x - x\<bar> \<le> \<bar>x\<bar> / 2" by simp
  then show "\<bar>fl64 x\<bar> \<le> 2 * \<bar>x\<bar>" by linarith
  from e2 show "\<bar>x\<bar> / 2 \<le> \<bar>fl64 x\<bar>" by linarith
qed

lemma dst_len_accuracy:
  assumes s: "src_sr \<noteq> 0" "\<bar>src_sr\<bar> < 2 ^ 53" and d: "\<bar>dst_sr\<bar> < 2 ^ 53"
    and l: "0 < len_x" "len_x < 2 ^ 53"
  shows "\<exists>n. resample_dst_len len_x src_sr dst_sr = Inr n
           \<and> \<bar>of_int n - real len_x * real_of_int dst_sr / real_of_int src_sr\<bar>
               \<le> 1 / 2 + \<bar>real len_x * real_of_int dst_sr / real_of_int src_sr\<bar> / 2 ^ 51"
proof -
  define fs :: real where "fs = of_int src_sr"
  define fd :: real where "fd = of_int dst_sr"
  define fn :: real where "fn = real len_x"
  define a where "a = fd / fs"
  define Q where "Q = fn * a"
  have cs: "float_of_int src_sr = Inr fs" unfolding fs_def by (rule float_of_int_exact [OF s(2)])
  have cd: "float_of_int dst_sr = Inr fd" unfolding fd_def by (rule float_of_int_exact [OF d])
  have "\<bar>int len_x\<bar> < 2 ^ 53" using l(2) by (simp add: of_nat_less_numeral_power_cancel_iff)
  from float_of_int_exact [OF this] have cn: "float_of_int (int len_x) = Inr fn"
    by (simp add: fn_def)
  have fs0: "fs \<noteq> 0" using s(1) by (simp add: fs_def)
  have Qeq: "real len_x * real_of_int dst_sr / real_of_int src_sr = Q"
    by (simp add: Q_def a_def fn_def fd_def fs_def)
  have unfold: "resample_dst_len len_x src_sr dst_sr =
      (if 2 ^ 1024 \<le> \<bar>fl64 a\<bar> \<or> 2 ^ 1024 \<le> \<bar>fl64 (fn * fl64 a)\<bar>
       then Inl OverflowError else Inr (py_round (fl64 (fn * fl64 a))))"
    using fs0 by (simp add: resample_dst_len_def cs cd cn Let_def a_def)
  show ?thesis
  proof (cases "dst_sr = 0")
    case True
    then have "a = 0" "Q = 0" by (simp_all add: a_def fd_def Q_def)
    then have "resample_dst_len len_x src_sr dst_sr = Inr 0"
      by (simp add: unfold fl64_zero py_round_def)
    with \<open>Q = 0\<close> show ?thesis by (simp add: Qeq)
  next
    case False
    have fs1: "1 \<le> \<bar>fs\<bar>" "\<bar>fs\<bar> < 2 ^ 53"
    proof -
      from s(1) have "1 \<le> \<bar>src_sr\<bar>" by simp
      then have "(1 :: real) \<le> of_int \<bar>src_sr\<bar>" by (simp only: of_int_1_le_iff)
      then show "1 \<le> \<bar>fs\<bar>" by (simp add: fs_def)
      from s(2) have "(of_int \<bar>src_sr\<bar> :: real) < of_int (2 ^ 53)" by (simp only: of_int_less_iff)
      then show "\<bar>fs\<bar> < 2 ^ 53" by (simp add: fs_def)
    qed
    have fd1: "1 \<le> \<bar>fd\<bar>" "\<bar>fd\<bar> < 2 ^ 53"
    proof -
      from False have "1 \<le> \<bar>dst_sr\<bar>" by simp
      then have "(1 :: real) \<le> of_int \<bar>dst_sr\<bar>" by (simp only: of_int_1_le_iff)
      then show "1 \<le> \<bar>fd\<bar>" by (simp add: fd_def)
      from d have "(of_int \<bar>dst_sr\<bar> :: real) < of_int (2 ^ 53)" by (simp only: of_int_less_iff)
      then show "\<bar>fd\<bar> < 2 ^ 53" by (simp add: fd_def)
    qed
    have fn1: "1 \<le> fn" "fn < 2 ^ 53"
      using l by (simp_all add: fn_def of_nat_less_numeral_power_cancel_iff Suc_le_eq [symmetric])
    have abs_a: "\<bar>a\<bar> = \<bar>fd\<bar> / \<bar>fs\<bar>" by (simp add: a_def abs_divide)
    have a_lo: "1 / 2 ^ 53 \<le> \<bar>a\<bar>"
    proof -
      have "1 / 2 ^ 53 \<le> 1 / \<bar>fs\<bar>"
        using fs1 by (intro divide_left_mono) simp_all
      also have "\<dots> \<le> \<bar>fd\<bar> / \<bar>fs\<bar>"
        using fd1 fs1 by (intro divide_right_mono) simp_all
      finally show ?thesis by (simp add: abs_a)
    qed
    have a_hi: "\<bar>a\<bar> < 2 ^ 53"
    proof -
      have "\<bar>fd\<bar> / \<bar>fs\<bar> \<le> \<bar>fd\<bar> / 1"
        using fs1 by (intro divide_left_mono) simp_all
      with fd1 show ?thesis by (simp add: abs_a)
    qed
    have a1: "1 / 2 ^ 54 \<le> \<bar>a\<bar>" "\<bar>a\<bar> < 2 ^ 108"
    proof -
      have "1 / (2 :: real) ^ 54 \<le> 1 / 2 ^ 53" by simp
      with a_lo show "1 / 2 ^ 54 \<le> \<bar>a\<bar>" by linarith
      have "(2 :: real) ^ 53 \<le> 2 ^ 108" by simp
      with a_hi show "\<bar>a\<bar> < 2 ^ 108" by linarith
    qed
    define r where "r = fl64 a"
    from fl64_near [OF a1]
    have r: "\<bar>r - a\<bar> \<le> \<bar>a\<bar> / 2 ^ 53" "\<bar>r\<bar> \<le> 2 * \<bar>a\<bar>" "\<bar>a\<bar> / 2 \<le> \<bar>r\<bar>"
      by (simp_all add: r_def)
    define b where "b = fn * r"
    have abs_b: "\<bar>b\<bar> = fn * \<bar>r\<bar>" using fn1 by (simp add: b_def abs_mult)
    have abs_Q: "\<bar>Q\<bar> = fn * \<bar>a\<bar>" using fn1 by (simp add: Q_def abs_mult)
    have b_lo: "1 / 2 ^ 54 \<le> \<bar>b\<bar>"
    proof -
      have "1 / 2 ^ 54 \<le> \<bar>a\<bar> / 2" using a_lo by simp
      also have "\<dots> \<le> \<bar>r\<bar>" by (rule r(3))
      also have "\<dots> = 1 * \<bar>r\<bar>" by simp
      also have "\<dots> \<le> fn * \<bar>r\<bar>" using fn1 by (intro mult_right_mono) simp_all
      finally show ?thesis by (simp add: abs_b)
    qed
    have b_hi: "\<bar>b\<bar> < 2 ^ 108"
    proof -
      have "\<bar>r\<bar> < 2 ^ 54" using r(2) a_hi by simp
      then have "fn * \<bar>r\<bar> < 2 ^ 53 * 2 ^ 54"
        using fn1 by (intro mult_strict_mono) simp_all
      then show ?thesis by (simp add: abs_b)
    qed
    define p where "p = fl64 b"
    from fl64_near [OF b_lo b_hi]
    have p: "\<bar>p - b\<bar> \<le> \<bar>b\<bar> / 2 ^ 53" "\<bar>p\<bar> \<le> 2 * \<bar>b\<bar>"
      by (simp_all add: p_def)
    have bQ: "\<bar>b - Q\<bar> \<le> \<bar>Q\<bar> / 2 ^ 53"
    proof -
      have "\<bar>b - Q\<bar> = fn * \<bar>r - a\<bar>"
        using fn1 by (simp add: b_def Q_def abs_mult right_diff_distrib [symmetric])
      also have "\<dots> \<le> fn * (\<bar>a\<bar> / 2 ^ 53)"
        using fn1 r(1) by (intro mult_left_mono) simp_all
      finally show ?thesis by (simp add: abs_Q)
    qed
    have b2Q: "\<bar>b\<bar> \<le> 2 * \<bar>Q\<bar>"
    proof -
      have "fn * \<bar>r\<bar> \<le> fn * (2 * \<bar>a\<bar>)"
        using fn1 r(2) by (intro mult_left_mono) simp_all
      then show ?thesis by (simp add: abs_b abs_Q)
    qed
    have pQ: "\<bar>p - Q\<bar> \<le> \<bar>Q\<bar> / 2 ^ 51"
    proof -
      have "\<bar>b\<bar> / 2 ^ 53 \<le> 2 * \<bar>Q\<bar> / 2 ^ 53"
        using b2Q by (intro divide_right_mono) simp_all
      with p(1) bQ have "\<bar>p - Q\<bar> \<le> 2 * \<bar>Q\<bar> / 2 ^ 53 + \<bar>Q\<bar> / 2 ^ 53" by linarith
      also have "\<dots> \<le> \<bar>Q\<bar> / 2 ^ 51" by simp
      finally show ?thesis .
    qed
    have fin: "\<not> (2 ^ 1024 \<le> \<bar>r\<bar> \<or> 2 ^ 1024 \<le> \<bar>p\<bar>)"
    proof -
      have "\<bar>r\<bar> < 2 ^ 108" using r(2) a_hi by simp
      moreover have "\<bar>p\<bar> < 2 ^ 1024"
      proof -
        have "\<bar>p\<bar> < 2 * 2 ^ 108" using p(2) b_hi by simp
        also have "\<dots> = (2 :: real) ^ 109" by simp
        also have "\<dots> \<le> 2 ^ 1024" by (intro power_increasing) simp_all
        finally show ?thesis .
      qed
      ultimately show ?thesis using pow_bounds(2) by simp
    qed
    have res: "resample_dst_len len_x src_sr dst_sr = Inr (py_round p)"
      using fin by (simp add: unfold r_def [symmetric] b_def [symmetric] p_def [symmetric])
    have "\<bar>of_int (py_round p) - p\<bar> \<le> 1 / 2" by (rule py_round_err)
    with pQ have "\<bar>of_int (py_round p) - Q\<bar> \<le> 1 / 2 + \<bar>Q\<bar> / 2 ^ 51" by linarith
    with res show ?thesis by (simp add: Qeq)
  qed
qed

lemma halvings_full: "2 ^ n \<le> x \<Longrightarrow> halvings n x = n"
proof (induction n arbitrary: x)
  case 0
  then show ?case by simp
next
  case (Suc n)
  then have "2 ^ n \<le> x / 2" by simp
  then have "halvings n (x / 2) = n" by (rule Suc.IH)
  moreover have "(2 :: real) \<le> 2 ^ Suc n" by simp
  with Suc.prems have "\<not> x < 2" by linarith
  ultimately show ?case by simp
qed

lemma fl64_overflow:
  assumes "2 ^ 1024 \<le> \<bar>x\<bar>"
  shows "2 ^ 1024 \<le> \<bar>fl64 x\<bar>"
proof -
  have "(1 :: real) \<le> 2 ^ 1024" by (rule one_le_power) simp
  with assms have one: "1 \<le> \<bar>x\<bar>" by linarith
  from halvings_full [OF assms] one have q: "ulp_exp x = 972"
    by (simp add: ulp_exp_def ilog2_def)
  define z where "z = x / 2 ^ 972"
  have zabs: "\<bar>z\<bar> = \<bar>x\<bar> / 2 ^ 972" by (simp add: z_def abs_divide)
  have split: "(2 :: real) ^ 1024 = 2 ^ 52 * 2 ^ 972" by (simp add: power_add [symmetric])
  with assms have "2 ^ 52 * 2 ^ 972 \<le> \<bar>x\<bar>" by simp
  then have zbig: "2 ^ 52 \<le> \<bar>z\<bar>" by (simp add: zabs pos_le_divide_eq)
  have "\<bar>of_int (py_round z) - z\<bar> \<le> 1 / 2" by (rule py_round_err)
  with zbig have "2 ^ 52 - 1 / 2 \<le> \<bar>of_int (py_round z) :: real\<bar>" by linarith
  then have "(2 ^ 52 - 1 :: real) < of_int \<bar>py_round z\<bar>" by simp
  then have "(of_int (2 ^ 52 - 1) :: real) < of_int \<bar>py_round z\<bar>" by simp
  then have "2 ^ 52 - 1 < \<bar>py_round z\<bar>" by (simp only: of_int_less_iff)
  then have "2 ^ 52 \<le> \<bar>py_round z\<bar>" by simp
  then have "(of_int (2 ^ 52) :: real) \<le> of_int \<bar>py_round z\<bar>" by (simp only: of_int_le_iff)
  then have r: "(2 ^ 52 :: real) \<le> \<bar>of_int (py_round z)\<bar>" by simp
  have "fl64 x = of_int (py_round z) * 2 ^ 972"
    by (simp add: fl64_def q z_def)
  then have "\<bar>fl64 x\<bar> = \<bar>of_int (py_round z) :: real\<bar> * 2 ^ 972"
    by (simp add: abs_mult)
  moreover have "2 ^ 52 * 2 ^ 972 \<le> \<bar>of_int (py_round z) :: real\<bar> * 2 ^ 972"
    using r by (intro mult_right_mono) simp_all
  ultimately show ?thesis using split by simp
qed


lemma fl64_keeps_half:
  assumes "1 \<le> \<bar>x\<bar>" "\<bar>x\<bar> < 2 ^ 1024"
  shows "\<bar>x\<bar> - \<bar>x\<bar> / 2 ^ 53 \<le> \<bar>fl64 x\<bar>"
proof -
  have "(2 :: real) powi (- 1022) \<le> 1" by (simp add: power_int_minus field_simps)
  with assms(1) have "2 powi (- 1022) \<le> \<bar>x\<bar>" by linarith
  from fl64_rel_err [OF this assms(2)] show ?thesis by linarith
qed

lemma resample_dst_len_inf_product:
  assumes "float_of_int src_sr = Inr fs" "fs \<noteq> 0" "float_of_int dst_sr = Inr fd"
    and "float_of_int (int len_x) = Inr fn" "2 ^ 1024 \<le> \<bar>fn * fl64 (fd / fs)\<bar>"
  shows "resample_dst_len len_x src_sr dst_sr = Inl OverflowError"
  using assms fl64_overflow [OF assms(5)] by (simp add: resample_dst_len_def Let_def)

lemma fl64_29_14: "fl64 (29 / 14) = 4664442471205157 / 2 ^ 51"
proof -
  have "ilog2 (29 / 14) = 1"
    by (simp add: ilog2_def halvings_unfold)
  then show ?thesis
    by (simp add: fl64_def ulp_exp_def py_round_def power_int_minus)
qed

lemma fl64_7_29_14: "fl64 (7 * (4664442471205157 / 2 ^ 51)) = 8162774324609025 / 2 ^ 49"
proof -
  have "ilog2 (7 * (4664442471205157 / 2 ^ 51)) = 3"
    by (simp add: ilog2_def halvings_unfold)
  then show ?thesis
    by (simp add: fl64_def ulp_exp_def py_round_def power_int_minus)
qed

lemma dst_len_7_14_29: "resample_dst_len 7 14 29 = Inr 15"
proof -
  have a: "float_of_int 14 = Inr 14" "float_of_int 29 = Inr 29" "float_of_int (int 7) = Inr 7"
    using float_of_int_exact [of 14] float_of_int_exact [of 29] float_of_int_exact [of 7]
    by simp_all
  have nz: "((14 :: real) = 0) = False" by simp
  have "resample_dst_len 7 14 29 =
      (if 2 ^ 1024 \<le> \<bar>4664442471205157 / 2 ^ 51 :: real\<bar>
          \<or> 2 ^ 1024 \<le> \<bar>8162774324609025 / 2 ^ 49 :: real\<bar>
       then Inl OverflowError else Inr (py_round (8162774324609025 / 2 ^ 49)))"
    unfolding resample_dst_len_def
    by (simp only: a sum.case fl64_29_14 fl64_7_29_14 Let_def nz if_False)
  also have "\<dots> = Inr 15"
    by (simp add: py_round_def)
  finally show ?thesis .
qed

subsection \<open>Facts about the resampler\<close>

lemma linspace01_Nil: "linspace01 n = [] \<longleftrightarrow> n = 0"
  by (simp add: linspace01_def)

lemma simple_resample_same:
  "src_sr = dst_sr \<or> x = [] \<Longrightarrow> simple_resample x src_sr dst_sr = Inr x"
  by (simp add: simple_resample_def)

lemma simple_resample_raise:
  assumes "src_sr \<noteq> dst_sr" "x \<noteq> []" "resample_dst_len (length x) src_sr dst_sr = Inl e"
  shows "simple_resample x src_sr dst_sr = Inl e"
  unfolding simple_resample_def using assms by simp

text \<open>Two samples from 1 Hz to \<open>10\<^sup>3\<^sup>0\<^sup>8\<close> Hz: the rate is a float, the product is not.\<close>

lemma simple_resample_infinite_product:
  "simple_resample [0, 0] 1 (10 ^ 308) = Inl OverflowError"
proof -
  define fd :: real where "fd = fl64 (of_int (10 ^ 308))"
  have len: "length [0 :: real, 0] = 2" by simp
  have s1: "float_of_int 1 = Inr 1" using float_of_int_exact [of 1] by simp
  have s2: "float_of_int (int 2) = Inr 2" using float_of_int_exact [of 2] by simp
  have x1: "(1 :: real) \<le> \<bar>of_int (10 ^ 308)\<bar>" "\<bar>of_int (10 ^ 308) :: real\<bar> < 2 ^ 1024"
    by simp_all
  from fl64_keeps_half [OF x1]
  have fd_lo: "10 ^ 308 - 10 ^ 308 / 2 ^ 53 \<le> \<bar>fd\<bar>" by (simp add: fd_def)
  have "(2 :: real) ^ 1023 + 2 ^ 1023 / 2 ^ 52 \<le> 10 ^ 308 - 10 ^ 308 / 2 ^ 53" by simp
  with fd_lo have fd_big: "2 ^ 1023 + 2 ^ 1023 / 2 ^ 52 \<le> \<bar>fd\<bar>" by linarith
  have "resample_dst_len 2 1 (10 ^ 308) = Inl OverflowError"
  proof (cases "2 ^ 1024 \<le> \<bar>fd\<bar>")
    case True
    then have "float_of_int (10 ^ 308) = Inl OverflowError"
      unfolding float_of_int_def fd_def by (rule if_P)
    then show ?thesis
      unfolding resample_dst_len_def by (simp only: s1 sum.case)
  next
    case False
    then have d: "float_of_int (10 ^ 308) = Inr fd"
      unfolding float_of_int_def fd_def by (rule if_not_P)
    have "(1 :: real) \<le> 2 ^ 1023 + 2 ^ 1023 / 2 ^ 52" by simp
    with fd_big have "1 \<le> \<bar>fd / 1\<bar>" by simp
    moreover from False have "\<bar>fd / 1\<bar> < 2 ^ 1024" by simp
    ultimately have "\<bar>fd / 1\<bar> - \<bar>fd / 1\<bar> / 2 ^ 53 \<le> \<bar>fl64 (fd / 1)\<bar>"
      by (rule fl64_keeps_half)
    with fd_big have "2 ^ 1023 \<le> \<bar>fl64 (fd / 1)\<bar>" by simp
    then have big: "2 ^ 1024 \<le> \<bar>2 * fl64 (fd / 1)\<bar>" by simp
    show ?thesis
      by (rule resample_dst_len_inf_product [OF s1 _ d s2 big]) simp
  qed
  then have "resample_dst_len (length [0 :: real, 0]) 1 (10 ^ 308) = Inl OverflowError"
    by (simp only: len)
  then show ?thesis by (intro simple_resample_raise) simp_all
qed

lemma simple_resample_one:
  assumes "src_sr \<noteq> dst_sr" "x \<noteq> []" "resample_dst_len (length x) src_sr dst_sr = Inr n"
    and "n \<le> 1"
  shows "simple_resample x src_sr dst_sr = Inr (take 1 x)"
  unfolding simple_resample_def using assms by simp

lemma simple_resample_interp:
  assumes "src_sr \<noteq> dst_sr" "x \<noteq> []" "resample_dst_len (length x) src_sr dst_sr = Inr n"
    and "\<not> n \<le> 1"
  shows "simple_resample x src_sr dst_sr =
           Inr (map (interp_at (linspace01 (length x)) x) (linspace01 (nat n)))"
  unfolding simple_resample_def Let_def np_interp_def using assms
  by (simp add: linspace01_Nil length_linspace01)

lemma simple_resample_cases:
  assumes "simple_resample x src_sr dst_sr = Inr y"
  shows "(src_sr = dst_sr \<or> x = []) \<and> y = x
         \<or> src_sr \<noteq> dst_sr \<and> x \<noteq> []
            \<and> (\<exists>n. resample_dst_len (length x) src_sr dst_sr = Inr n
                  \<and> (n \<le> 1 \<and> y = take 1 x
                      \<or> \<not> n \<le> 1
                        \<and> y = map (interp_at (linspace01 (length x)) x) (linspace01 (nat n))))"
proof (cases "src_sr = dst_sr \<or> x = []")
  case True
  with assms show ?thesis by (simp add: simple_resample_same)
next
  case False
  then have ne: "src_sr \<noteq> dst_sr" "x \<noteq> []" by auto
  show ?thesis
  proof (cases "resample_dst_len (length x) src_sr dst_sr")
    case (Inl e)
    from simple_resample_raise [OF ne Inl] assms show ?thesis by simp
  next
    case (Inr n)
    show ?thesis
    proof (cases "n \<le> 1")
      case True
      from simple_resample_one [OF ne Inr True] assms ne Inr True show ?thesis by simp
    next
      case False
      from simple_resample_interp [OF ne Inr False] assms ne Inr False show ?thesis by simp
    qed
  qed
qed

lemma simple_resample_returns:
  assumes "src_sr = dst_sr \<or> x = [] \<or> (\<exists>n. resample_dst_len (length x) src_sr dst_sr = Inr n)"
  shows "\<exists>y. simple_resample x src_sr dst_sr = Inr y"
proof (cases "src_sr = dst_sr \<or> x = []")
  case True
  then show ?thesis by (simp add: simple_resample_same)
next
  case False
  then have ne: "src_sr \<noteq> dst_sr" "x \<noteq> []" by auto
  from assms False obtain n where n: "resample_dst_len (length x) src_sr dst_sr = Inr n" by blast
  show ?thesis
  proof (cases "n \<le> 1")
    case True
    from simple_resample_one [OF ne n True] show ?thesis by blast
  next
    case False
    from simple_resample_interp [OF ne n False] show ?thesis by blast
  qed
qed

lemma simple_resample_between:
  assumes "simple_resample x src_sr dst_sr = Inr y" "\<forall>v \<in> set x. lo \<le> v \<and> v \<le> hi"
  shows "\<forall>v \<in> set y. lo \<le> v \<and> v \<le> hi"
proof -
  from simple_resample_cases [OF assms(1)]
  consider "y = x" | "y = take 1 x"
    | n where "x \<noteq> []" "y = map (interp_at (linspace01 (length x)) x) (linspace01 (nat n))"
    by blast
  then show ?thesis
  proof cases
    case 1
    with assms(2) show ?thesis by simp
  next
    case 2
    with assms(2) show ?thesis by (auto dest: in_set_takeD)
  next
    case 3
    have len: "linspace01 (length x) \<noteq> []" "length (linspace01 (length x)) = length x"
      using 3(1) by (simp_all add: linspace01_Nil length_linspace01)
    from interp_at_between [OF assms(2) len] 3(2) show ?thesis by auto
  qed
qed

lemma simple_resample_length:
  assumes "simple_resample x src_sr dst_sr = Inr y" "src_sr \<noteq> dst_sr" "x \<noteq> []"
  shows "\<exists>n. resample_dst_len (length x) src_sr dst_sr = Inr n \<and> int (length y) = max 1 n"
proof -
  from simple_resample_cases [OF assms(1)] assms(2,3)
  obtain n where n: "resample_dst_len (length x) src_sr dst_sr = Inr n"
    and y: "n \<le> 1 \<and> y = take 1 x
            \<or> \<not> n \<le> 1 \<and> y = map (interp_at (linspace01 (length x)) x) (linspace01 (nat n))"
    by blast
  from y have "int (length y) = max 1 n"
  proof
    assume "n \<le> 1 \<and> y = take 1 x"
    with assms(3) show ?thesis by (cases x) simp_all
  next
    assume "\<not> n \<le> 1 \<and> y = map (interp_at (linspace01 (length x)) x) (linspace01 (nat n))"
    then show ?thesis by (simp add: length_linspace01)
  qed
  with n show ?thesis by blast
qed

subsection \<open>Facts about the window\<close>

lemma target_block_val: "target_block = 40000"
  by (simp add: target_block_def TARGET_SR_def BLOCK_SEC_def py_int_def)

lemma need_src_len_val: "need_src_len = 144000"
  by (simp add: need_src_len_def approx_src_sr_def BLOCK_SEC_def OVERLAP_SEC_def py_int_def)

lemma length_to_mono_2D: "length (to_mono (Frames2D rows)) = length rows"
  by (simp add: to_mono_def)

lemma append_trim_tail: "append_trim buf blk = py_tail (48000 * 60) (buf @ to_mono blk)"
  by (simp add: append_trim_def py_tail_def Let_def)

lemma length_append_trim:
  "length (append_trim buf blk) = min (48000 * 60) (length buf + length (to_mono blk))"
  by (simp add: append_trim_tail py_tail_length)

lemma py_tail_absorb:
  assumes "0 < n"
  shows "py_tail n (py_tail n xs @ ys) = py_tail n (xs @ ys)"
proof -
  have "length xs + length ys - (length xs - n + n) + (length xs - n) = length xs + length ys - n"
    by arith
  with assms show ?thesis by (simp add: py_tail_def)
qed

lemma resample_span:
  assumes "length c = 144000"
  shows "\<exists>rs. simple_resample c approx_src_sr TARGET_SR = Inr rs \<and> length rs = 48000"
proof -
  have ne: "approx_src_sr \<noteq> TARGET_SR" "c \<noteq> []"
    using assms by (auto simp: approx_src_sr_def TARGET_SR_def)
  have n: "resample_dst_len (length c) approx_src_sr TARGET_SR = Inr 48000"
    using dst_len_span by (simp add: assms approx_src_sr_def TARGET_SR_def)
  have "\<not> (48000 :: int) \<le> 1" by simp
  from simple_resample_interp [OF ne n this] show ?thesis
    by (simp add: length_linspace01)
qed

lemma extract_window_short: "length buf < need_src_len \<Longrightarrow> extract_window buf = None"
  by (simp add: extract_window_def)

lemma extract_window_ready:
  assumes "need_src_len \<le> length buf"
  shows "\<exists>rs. simple_resample (py_tail need_src_len buf) approx_src_sr TARGET_SR = Inr rs
           \<and> length rs = 48000
           \<and> extract_window buf = Some (Inr (drop 8000 rs))"
proof -
  from assms have "length (py_tail need_src_len buf) = 144000"
    by (simp add: py_tail_length need_src_len_val)
  from resample_span [OF this]
  obtain rs where rs: "simple_resample (py_tail need_src_len buf) approx_src_sr TARGET_SR = Inr rs"
    and len: "length rs = 48000" by blast
  from assms rs len have "extract_window buf = Some (Inr (drop 8000 rs))"
    by (simp add: extract_window_def target_block_val py_tail_def)
  with rs len show ?thesis by blast
qed

subsection \<open>Facts about the recognition thread\<close>

lemma asr_step_short:
  assumes "length (append_trim (src_buffer st) blk) < need_src_len"
  shows "asr_step m st blk = Inr (st\<lparr>src_buffer := append_trim (src_buffer st) blk\<rparr>)"
  using extract_window_short [OF assms] by (simp add: asr_step_def)

lemma asr_step_window:
  assumes "extract_window (append_trim (src_buffer st) blk) = Some (Inr w)"
  shows "asr_step m st blk =
           (case asr_transcribe_chunk m (calls st) w of
              Inl e \<Rightarrow> Inl e
            | Inr text \<Rightarrow> Inr (put_text (st\<lparr>src_buffer := append_trim (src_buffer st) blk\<rparr>) text))"
  using assms by (simp add: asr_step_def)

lemma asr_step_buffer:
  assumes "asr_step m st blk = Inr st'"
  shows "src_buffer st' = append_trim (src_buffer st) blk"
  using assms
  by (auto simp: asr_step_def Let_def put_text_def split: option.splits sum.splits)

lemma asr_thread_buffer:
  assumes "fst (asr_thread m st blks) = None"
  shows "src_buffer (snd (asr_thread m st blks)) = foldl append_trim (src_buffer st) blks"
  using assms
proof (induction blks arbitrary: st)
  case Nil
  then show ?case by simp
next
  case (Cons blk blks)
  show ?case
  proof (cases "asr_step m st blk")
    case (Inl e)
    with Cons.prems show ?thesis by simp
  next
    case (Inr st')
    with Cons.prems have "fst (asr_thread m st' blks) = None" by simp
    from Cons.IH [OF this] Inr asr_step_buffer [OF Inr] show ?thesis by simp
  qed
qed

lemma asr_thread_buffer_length:
  assumes "length (src_buffer st) \<le> 48000 * 60"
  shows "length (src_buffer (snd (asr_thread m st blks))) \<le> 48000 * 60"
  using assms
proof (induction blks arbitrary: st)
  case Nil
  then show ?case by simp
next
  case (Cons blk blks)
  show ?case
  proof (cases "asr_step m st blk")
    case (Inl e)
    with Cons.prems show ?thesis by simp
  next
    case (Inr st')
    have "length (src_buffer st') \<le> 48000 * 60"
      by (simp add: asr_step_buffer [OF Inr] length_append_trim)
    from Cons.IH [OF this] Inr show ?thesis by simp
  qed
qed

lemma foldl_append_trim:
  assumes "length buf \<le> 48000 * 60"
  shows "foldl append_trim buf blks = py_tail (48000 * 60) (buf @ concat (map to_mono blks))"
  using assms
proof (induction blks arbitrary: buf)
  case Nil
  then show ?case by (simp add: py_tail_def)
next
  case (Cons blk blks)
  have "length (append_trim buf blk) \<le> 48000 * 60"
    by (simp add: length_append_trim)
  from Cons.IH [OF this]
  have "foldl append_trim buf (blk # blks) =
          py_tail (48000 * 60) (append_trim buf blk @ concat (map to_mono blks))"
    by simp
  also have "\<dots> =
          py_tail (48000 * 60) (py_tail (48000 * 60) (buf @ to_mono blk) @ concat (map to_mono blks))"
    by (simp only: append_trim_tail)
  also have "\<dots> = py_tail (48000 * 60) ((buf @ to_mono blk) @ concat (map to_mono blks))"
    by (rule py_tail_absorb) simp
  finally show ?case by simp
qed

subsection \<open>Facts about the caption list\<close>

lemma tick_item_tail:
  "tick_item lines t = (if strip t \<noteq> [] then py_tail KEEP_LINES (lines @ [strip t]) else lines)"
  by (simp add: tick_item_def py_tail_def Let_def)

lemma tick_tail:
  assumes "length lines \<le> KEEP_LINES"
  shows "tick lines ts = py_tail KEEP_LINES (lines @ map strip (filter (\<lambda>t. strip t \<noteq> []) ts))"
  using assms unfolding tick_def
proof (induction ts arbitrary: lines)
  case Nil
  then show ?case by (simp add: py_tail_def)
next
  case (Cons t ts)
  show ?case
  proof (cases "strip t = []")
    case True
    then have "tick_item lines t = lines" by (simp add: tick_item_tail)
    with True Cons.IH [OF Cons.prems] show ?thesis by simp
  next
    case False
    have pos: "0 < KEEP_LINES" by (simp add: KEEP_LINES_def)
    have "length (py_tail KEEP_LINES (lines @ [strip t])) \<le> KEEP_LINES"
      using pos by (simp add: py_tail_length)
    note ih = Cons.IH [OF this]
    have step: "tick_item lines t = py_tail KEEP_LINES (lines @ [strip t])"
      using False by (simp add: tick_item_tail)
    have "foldl tick_item lines (t # ts) = foldl tick_item (tick_item lines t) ts"
      by simp
    also have "\<dots> =
            py_tail KEEP_LINES (py_tail KEEP_LINES (lines @ [strip t])
              @ map strip (filter (\<lambda>t. strip t \<noteq> []) ts))"
      by (simp only: step ih)
    also have "\<dots> = py_tail KEEP_LINES ((lines @ [strip t]) @ map strip (filter (\<lambda>t. strip t \<noteq> []) ts))"
      by (rule py_tail_absorb [OF pos])
    finally show ?thesis using False by simp
  qed
qed

subsection \<open>Facts about one iteration and one queued text\<close>

lemma tick_item_blank: "strip t = [] \<Longrightarrow> tick_item lines t = lines"
  by (simp add: tick_item_def)

lemma tick_item_room:
  "\<lbrakk>strip t \<noteq> []; length lines < KEEP_LINES\<rbrakk> \<Longrightarrow> tick_item lines t = lines @ [strip t]"
  by (simp add: tick_item_def Let_def)

lemma tick_item_last:
  assumes "strip t \<noteq> []"
  shows "tick_item lines t \<noteq> [] \<and> last (tick_item lines t) = strip t"
proof -
  have "0 < KEEP_LINES" by (simp add: KEEP_LINES_def)
  then have "length lines + 1 - KEEP_LINES < length lines + 1" by arith
  then have "length lines + 1 - KEEP_LINES < length (lines @ [strip t])" by simp
  then have "drop (length lines + 1 - KEEP_LINES) (lines @ [strip t]) \<noteq> []
             \<and> last (drop (length lines + 1 - KEEP_LINES) (lines @ [strip t])) = strip t"
    by (simp only: last_drop drop_eq_Nil not_le) simp
  with assms show ?thesis
    by (simp add: tick_item_def Let_def py_tail_def)
qed

lemma asr_step_empty_text:
  assumes "extract_window (append_trim (src_buffer st) blk) = Some (Inr w)"
    and "asr_transcribe_chunk m (calls st) w = Inr []"
  shows "asr_step m st blk =
           Inr (st\<lparr>src_buffer := append_trim (src_buffer st) blk, calls := Suc (calls st)\<rparr>)"
  using assms by (simp add: asr_step_window put_text_def)

lemma asr_step_text:
  assumes "extract_window (append_trim (src_buffer st) blk) = Some (Inr w)"
    and "asr_transcribe_chunk m (calls st) w = Inr text" "text \<noteq> []"
  shows "asr_step m st blk =
           Inr (st\<lparr>src_buffer := append_trim (src_buffer st) blk,
                    text_q := text_q st @ [text], calls := Suc (calls st)\<rparr>)"
  using assms by (simp add: asr_step_window put_text_def)

lemma asr_step_raise:
  assumes "extract_window (append_trim (src_buffer st) blk) = Some (Inr w)"
    and "asr_transcribe_chunk m (calls st) w = Inl e"
  shows "asr_step m st blk = Inl e"
  using assms by (simp add: asr_step_window)

lemma strip_hello: "strip ''hello'' = ''hello''"
  by (simp add: strip_def isspace_def)

lemma strip_Nil: "strip [] = []"
  by (simp add: strip_def)

lemma window_of_silence:
  assumes "144000 \<le> n" "n \<le> 2880000"
  shows "\<exists>w. extract_window (append_trim [] (Frames2D (replicate n [0, 0]))) = Some (Inr w)"
proof -
  have "length (append_trim [] (Frames2D (replicate n [0, 0]))) = n"
    using assms by (simp add: length_append_trim length_to_mono_2D)
  with assms have "need_src_len \<le> length (append_trim [] (Frames2D (replicate n [0, 0])))"
    by (simp add: need_src_len_val)
  from extract_window_ready [OF this] show ?thesis by blast
qed

lemma window_after_silence:
  assumes "144000 \<le> n"
  shows "\<exists>w. extract_window (append_trim (append_trim [] (Frames2D (replicate n [0, 0])))
                 (Frames2D (replicate k [0, 0]))) = Some (Inr w)"
proof -
  have "need_src_len \<le> length (append_trim (append_trim [] (Frames2D (replicate n [0, 0])))
                 (Frames2D (replicate k [0, 0])))"
    using assms by (simp add: length_append_trim length_to_mono_2D need_src_len_val)
  from extract_window_ready [OF this] show ?thesis by blast
qed

subsection \<open>Facts about the threads together\<close>

lemma sys_inv_init: "sys_inv sys_init"
  by (simp add: sys_inv_def sys_init_def raw_q_init_def Queue_def)

lemma sys_step_Callback:
  assumes "maxsize (raw_q s) = 0"
  shows "sys_step m s (Callback blk) = Some (s\<lparr>raw_q := (raw_q s)\<lparr>items := items (raw_q s) @ [blk]\<rparr>\<rparr>)"
  using assms by (simp add: sys_step_def audio_callback_def queue_put_def queue_full_def)

lemma sys_step_inv:
  assumes "sys_inv s" "sys_step m s ev = Some s'"
  shows "sys_inv s'"
proof (cases ev)
  case (Callback blk)
  from assms(1) have "maxsize (raw_q s) = 0" by (simp add: sys_inv_def)
  from sys_step_Callback [OF this, of m blk] assms Callback show ?thesis
    by (auto simp: sys_inv_def)
next
  case AsrPoll
  show ?thesis
  proof (cases "pc s = Idle")
    case False
    with assms AsrPoll show ?thesis by (simp add: sys_step_def)
  next
    case idle: True
    show ?thesis
    proof (cases "items (raw_q s)")
      case Nil
      with assms AsrPoll idle show ?thesis by (simp add: sys_step_def)
    next
      case (Cons blk rest)
      define buf where "buf = append_trim (src_buffer (worker s)) blk"
      show ?thesis
      proof (cases "need_src_len \<le> length buf")
        case False
        then have "extract_window buf = None" by (simp add: extract_window_short)
        with assms AsrPoll idle Cons show ?thesis
          by (auto simp: sys_step_def Let_def buf_def sys_inv_def)
      next
        case True
        from extract_window_ready [OF this]
        obtain rs where "length rs = 48000" "extract_window buf = Some (Inr (drop 8000 rs))"
          by blast
        with assms AsrPoll idle Cons show ?thesis
          by (auto simp: sys_step_def Let_def buf_def sys_inv_def)
      qed
    qed
  qed
next
  case EngineDone
  with assms show ?thesis
    by (auto simp: sys_step_def sys_inv_def split: worker_pc.splits sum.splits)
next
  case GuiTick
  with assms show ?thesis by (auto simp: sys_step_def sys_inv_def)
qed

lemma run_inv:
  assumes "sys_inv s" "run m s evs = Some s'"
  shows "sys_inv s'"
  using assms
proof (induction evs arbitrary: s)
  case Nil
  then show ?case by simp
next
  case (Cons ev evs)
  from Cons.prems(2) obtain s1 where s1: "sys_step m s ev = Some s1" "run m s1 evs = Some s'"
    by (auto split: option.splits)
  from sys_step_inv [OF Cons.prems(1) s1(1)] have "sys_inv s1" .
  from Cons.IH [OF this s1(2)] show ?case .
qed

lemma audio_callbacks_unbounded:
  assumes "maxsize q = 0"
  shows "audio_callbacks q blks = Some (q\<lparr>items := items q @ blks\<rparr>)"
  using assms
proof (induction blks arbitrary: q)
  case Nil
  then show ?case by simp
next
  case (Cons b bs)
  have "audio_callback q b = Some (q\<lparr>items := items q @ [b]\<rparr>)"
    using Cons.prems by (simp add: audio_callback_def queue_put_def queue_full_def)
  moreover have "maxsize (q\<lparr>items := items q @ [b]\<rparr>) = 0"
    using Cons.prems by simp
  ultimately show ?case using Cons.IH [of "q\<lparr>items := items q @ [b]\<rparr>"] by simp
qed

lemma sys_step_AsrPoll_window:
  assumes "pc s = Idle" "items (raw_q s) = blk # rest"
    and "extract_window (append_trim (src_buffer (worker s)) blk) = Some (Inr w)"
  shows "sys_step m s AsrPoll =
           Some (s\<lparr>raw_q := (raw_q s)\<lparr>items := rest\<rparr>,
                   worker := (worker s)\<lparr>src_buffer := append_trim (src_buffer (worker s)) blk\<rparr>,
                   pc := InCall w, depth := depth s + 1,
                   max_depth := max (max_depth s) (depth s + 1)\<rparr>)"
  using assms by (simp add: sys_step_def Let_def)

lemma run_to_first_call:
  "\<exists>s w. run m sys_init [Callback (Frames2D (replicate 144000 [0, 0])), AsrPoll] = Some s
         \<and> pc s = InCall w"
proof -
  define s1 where "s1 = sys_init\<lparr>raw_q := (raw_q sys_init)\<lparr>items := items (raw_q sys_init)
      @ [Frames2D (replicate 144000 [0, 0])]\<rparr>\<rparr>"
  have c: "sys_step m sys_init (Callback (Frames2D (replicate 144000 [0, 0]))) = Some s1"
    unfolding s1_def by (rule sys_step_Callback) (simp add: sys_init_def raw_q_init_def Queue_def)
  have idle: "pc s1 = Idle"
    by (simp add: s1_def sys_init_def)
  have q: "items (raw_q s1) = Frames2D (replicate 144000 [0, 0]) # []"
    by (simp add: s1_def sys_init_def raw_q_init_def Queue_def)
  obtain w where w: "extract_window (append_trim (src_buffer (worker s1))
      (Frames2D (replicate 144000 [0, 0]))) = Some (Inr w)"
    using window_of_silence [of 144000] by (auto simp: s1_def sys_init_def asr_init_def)
  from sys_step_AsrPoll_window [OF idle q w, of m] c show ?thesis by simp
qed

text \<open>
  The two events of the recognition thread make up one iteration of its loop, as
  \<open>asr_step\<close> computes it.
\<close>

lemma sys_iteration_no_window:
  assumes "pc s = Idle" "items (raw_q s) = blk # rest"
    and "extract_window (append_trim (src_buffer (worker s)) blk) = None"
  shows "sys_step m s AsrPoll =
           Some (s\<lparr>raw_q := (raw_q s)\<lparr>items := rest\<rparr>,
                   worker := (worker s)\<lparr>src_buffer := append_trim (src_buffer (worker s)) blk\<rparr>\<rparr>)
         \<and> asr_step m (worker s) blk =
             Inr ((worker s)\<lparr>src_buffer := append_trim (src_buffer (worker s)) blk\<rparr>)"
  using assms by (simp add: sys_step_def asr_step_def Let_def)

lemma sys_iteration_window:
  assumes "pc s = Idle" "items (raw_q s) = blk # rest"
    and "extract_window (append_trim (src_buffer (worker s)) blk) = Some (Inr w)"
  shows "\<exists>s'. run m s [AsrPoll, EngineDone] = Some s'
           \<and> (case asr_step m (worker s) blk of
                 Inl e \<Rightarrow> pc s' = Dead e
               | Inr st' \<Rightarrow> pc s' = Idle \<and> worker s' = st')"
proof (cases "asr_transcribe_chunk m (calls (worker s)) w")
  case (Inl e)
  with assms show ?thesis
    by (simp add: sys_step_AsrPoll_window asr_step_window) (simp add: sys_step_def)
next
  case (Inr t)
  with assms show ?thesis
    by (simp add: sys_step_AsrPoll_window asr_step_window) (simp add: sys_step_def put_text_def)
qed

section \<open>The claims\<close>

subsection \<open>C1\<close>

text \<open>
  Claim C1. Whenever a window is extracted from the rolling buffer, the resampling of the
  last \<open>need_src_len\<close> samples has returned at least \<open>target_block\<close> samples, and the
  window is its last \<open>target_block\<close> samples: exactly \<open>target_block\<close> of them, where
  \<open>target_block\<close> is \<open>TARGET_SR * BLOCK_SEC = 40000\<close>. The resampled span is never shorter
  than a window, so no window needs padding. Under every schedule, a window passed to a
  transcription call has 40000 samples.
\<close>

theorem window_exact_length:
  "(extract_window buf = Some r \<longrightarrow>
      (\<exists>rs. simple_resample (py_tail need_src_len buf) approx_src_sr TARGET_SR = Inr rs
            \<and> target_block \<le> length rs
            \<and> r = Inr (drop (length rs - target_block) rs)
            \<and> length (drop (length rs - target_block) rs) = target_block))
   \<and> real target_block = real_of_int TARGET_SR * BLOCK_SEC
   \<and> target_block = 40000
   \<and> (run m sys_init evs = Some s \<and> pc s = InCall w \<longrightarrow> length w = target_block)"
proof -
  have first: "\<exists>rs. simple_resample (py_tail need_src_len buf) approx_src_sr TARGET_SR = Inr rs
            \<and> target_block \<le> length rs
            \<and> r = Inr (drop (length rs - target_block) rs)
            \<and> length (drop (length rs - target_block) rs) = target_block"
    if r: "extract_window buf = Some r"
  proof -
    from r have "need_src_len \<le> length buf"
      by (simp add: extract_window_def split: if_splits)
    from extract_window_ready [OF this] r show ?thesis
      by (auto simp: target_block_val)
  qed
  have prod: "real target_block = real_of_int TARGET_SR * BLOCK_SEC"
    by (simp add: target_block_val TARGET_SR_def BLOCK_SEC_def)
  have flight: "length w = target_block" if "run m sys_init evs = Some s" "pc s = InCall w"
    using run_inv [OF sys_inv_init that(1)] that(2) by (simp add: sys_inv_def target_block_val)
  from first prod flight show ?thesis by (simp add: target_block_val)
qed

text \<open>
  The window of the first call, after three seconds of silence, and the window extracted
  from a buffer of 144000 samples.
\<close>

theorem window_exact_length_witness:
  "\<exists>s w r rs.
       run NoBackend sys_init [Callback (Frames2D (replicate 144000 [0, 0])), AsrPoll] = Some s
     \<and> pc s = InCall w \<and> length w = 40000
     \<and> extract_window (replicate 144000 0) = Some r
     \<and> r = Inr (drop (length rs - target_block) rs)
     \<and> length (drop (length rs - target_block) rs) = 40000"
proof -
  from run_to_first_call [of NoBackend]
  obtain s w where r: "run NoBackend sys_init [Callback (Frames2D (replicate 144000 [0, 0])), AsrPoll] = Some s"
    and w: "pc s = InCall w" by blast
  have "need_src_len \<le> length (replicate 144000 (0 :: real))"
    by (simp add: need_src_len_val)
  from extract_window_ready [OF this]
  obtain r0 where r0: "extract_window (replicate 144000 0) = Some r0" by blast
  note inst = window_exact_length [of "replicate 144000 0" r0 NoBackend
      "[Callback (Frames2D (replicate 144000 [0, 0])), AsrPoll]" s w]
  from inst r w have len: "length w = 40000" by simp
  from inst r0 obtain rs where "r0 = Inr (drop (length rs - target_block) rs)"
    "length (drop (length rs - target_block) rs) = 40000"
    by auto
  with r w len r0 show ?thesis by blast
qed

subsection \<open>C2\<close>

text \<open>
  Claim C2, as the code has it. Whenever \<^verbatim>\<open>simple_resample\<close> returns, its output is the
  input itself for an empty input or equal rates, and otherwise has \<open>max(1, n)\<close> samples,
  where \<open>n\<close> is Python's \<^verbatim>\<open>round\<close> of the binary64 product \<^verbatim>\<open>len(x) * (dst_sr / float(src_sr))\<close>:
  a non-empty input never resamples to nothing, since a computed length of at most 1
  returns the first sample. An all-zero input yields an all-zero output. For a non-zero
  source rate, and rates and a length below \<open>2\<^sup>5\<^sup>3\<close> in magnitude, the call returns and
  \<open>n\<close> differs from the exact quotient \<open>Q = L * Dr / Sr\<close> by at most \<open>1/2 + |Q| / 2\<^sup>5\<^sup>1\<close>:
  it is a nearest integer of \<open>Q\<close> unless \<open>Q\<close> is that close to the middle between two
  integers.
\<close>

theorem resample_length_and_silence:
  "(simple_resample x src_sr dst_sr = Inr y \<longrightarrow>
       (x = [] \<or> src_sr = dst_sr \<longrightarrow> y = x)
     \<and> (x \<noteq> [] \<and> src_sr \<noteq> dst_sr \<longrightarrow>
          (\<exists>n. resample_dst_len (length x) src_sr dst_sr = Inr n \<and> int (length y) = max 1 n))
     \<and> ((\<forall>v \<in> set x. v = 0) \<longrightarrow> (\<forall>v \<in> set y. v = 0)))
   \<and> (src_sr \<noteq> 0 \<and> \<bar>src_sr\<bar> < 2 ^ 53 \<and> \<bar>dst_sr\<bar> < 2 ^ 53 \<and> x \<noteq> [] \<and> length x < 2 ^ 53 \<longrightarrow>
        (\<exists>n y'. resample_dst_len (length x) src_sr dst_sr = Inr n
            \<and> \<bar>of_int n - real (length x) * real_of_int dst_sr / real_of_int src_sr\<bar>
                \<le> 1 / 2 + \<bar>real (length x) * real_of_int dst_sr / real_of_int src_sr\<bar> / 2 ^ 51
            \<and> simple_resample x src_sr dst_sr = Inr y'
            \<and> int (length y') = (if src_sr = dst_sr then int (length x) else max 1 n)))"
proof -
  have same: "y = x" if "simple_resample x src_sr dst_sr = Inr y" "x = [] \<or> src_sr = dst_sr"
    using that by (auto simp: simple_resample_same)
  have len: "\<exists>n. resample_dst_len (length x) src_sr dst_sr = Inr n \<and> int (length y) = max 1 n"
    if "simple_resample x src_sr dst_sr = Inr y" "x \<noteq> []" "src_sr \<noteq> dst_sr"
    using simple_resample_length [OF that(1) that(3) that(2)] .
  have zero: "\<forall>v \<in> set y. v = 0"
    if y: "simple_resample x src_sr dst_sr = Inr y" and z: "\<forall>v \<in> set x. v = 0"
  proof -
    from z have "\<forall>v \<in> set x. 0 \<le> v \<and> v \<le> 0" by auto
    from simple_resample_between [OF y this] show ?thesis by auto
  qed
  have acc: "\<exists>n y'. resample_dst_len (length x) src_sr dst_sr = Inr n
            \<and> \<bar>of_int n - real (length x) * real_of_int dst_sr / real_of_int src_sr\<bar>
                \<le> 1 / 2 + \<bar>real (length x) * real_of_int dst_sr / real_of_int src_sr\<bar> / 2 ^ 51
            \<and> simple_resample x src_sr dst_sr = Inr y'
            \<and> int (length y') = (if src_sr = dst_sr then int (length x) else max 1 n)"
    if h: "src_sr \<noteq> 0" "\<bar>src_sr\<bar> < 2 ^ 53" "\<bar>dst_sr\<bar> < 2 ^ 53" "x \<noteq> []" "length x < 2 ^ 53"
  proof -
    from h(4) have pos: "0 < length x" by simp
    from dst_len_accuracy [OF h(1) h(2) h(3) pos h(5)]
    obtain n where n: "resample_dst_len (length x) src_sr dst_sr = Inr n"
      and a: "\<bar>of_int n - real (length x) * real_of_int dst_sr / real_of_int src_sr\<bar>
                \<le> 1 / 2 + \<bar>real (length x) * real_of_int dst_sr / real_of_int src_sr\<bar> / 2 ^ 51"
      by blast
    from n simple_resample_returns [of src_sr dst_sr x]
    obtain y' where y': "simple_resample x src_sr dst_sr = Inr y'" by blast
    have "int (length y') = (if src_sr = dst_sr then int (length x) else max 1 n)"
    proof (cases "src_sr = dst_sr")
      case True
      with y' show ?thesis by (simp add: simple_resample_same)
    next
      case False
      from simple_resample_length [OF y' False h(4)] n False show ?thesis by simp
    qed
    with n a y' show ?thesis by blast
  qed
  from same len zero acc show ?thesis by blast
qed

text \<open>
  Seven silent samples from 14 Hz to 29 Hz: the exact quotient is 14.5, the binary64
  product is just above it, and the output has 15 silent samples.
\<close>

theorem resample_length_and_silence_witness:
  "\<exists>y. simple_resample [0, 0, 0, 0, 0, 0, 0] 14 29 = Inr y \<and> y = replicate 15 0"
proof -
  have h: "(14 :: int) \<noteq> 0 \<and> \<bar>14 :: int\<bar> < 2 ^ 53 \<and> \<bar>29 :: int\<bar> < 2 ^ 53
      \<and> [0 :: real, 0, 0, 0, 0, 0, 0] \<noteq> [] \<and> length [0 :: real, 0, 0, 0, 0, 0, 0] < 2 ^ 53"
    by simp
  have l7: "length [0 :: real, 0, 0, 0, 0, 0, 0] = 7" by simp
  note inst = resample_length_and_silence [of "[0, 0, 0, 0, 0, 0, 0]" 14 29]
  from inst h obtain n y where n: "resample_dst_len (length [0 :: real, 0, 0, 0, 0, 0, 0]) 14 29 = Inr n"
    and y: "simple_resample [0, 0, 0, 0, 0, 0, 0] 14 29 = Inr y"
    and len: "int (length y) = (if (14 :: int) = 29 then int (length [0 :: real, 0, 0, 0, 0, 0, 0]) else max 1 n)"
    by blast
  from n have "n = 15" by (simp only: l7 dst_len_7_14_29) simp
  with len have l15: "length y = 15" by simp
  have z: "\<forall>v \<in> set [0 :: real, 0, 0, 0, 0, 0, 0]. v = 0" by simp
  from inst [of y] y z have "\<forall>v \<in> set y. v = 0" by blast
  with l15 have "y = replicate 15 0"
    by (metis replicate_eqI)
  with y show ?thesis by blast
qed

text \<open>
  One sample at 48000 Hz resampled to 16000 Hz: \<open>round(1/3)\<close> is 0 under either rounding of
  ties, and the output has one sample.
\<close>

theorem resample_length_counterexample:
  "simple_resample [0] 48000 16000 = Inr [0]
   \<and> int (length [0 :: real]) \<noteq> py_round (real (length [0 :: real]) * real_of_int 16000 / real_of_int 48000)
   \<and> int (length [0 :: real]) \<noteq> round (real (length [0 :: real]) * real_of_int 16000 / real_of_int 48000)"
proof -
  have d: "resample_dst_len (length [0 :: real]) 48000 16000 = Inr 0"
    using dst_len_one_sample by simp
  have "simple_resample [0] 48000 16000 = Inr (take 1 [0])"
    by (rule simple_resample_one [OF _ _ d]) simp_all
  moreover have "py_round (real (length [0 :: real]) * real_of_int 16000 / real_of_int 48000) = 0"
    by (simp add: py_round_def)
  moreover have "round (real (length [0 :: real]) * real_of_int 16000 / real_of_int 48000) = 0"
    by (simp add: round_def)
  ultimately show ?thesis by simp
qed

subsection \<open>C3\<close>

text \<open>
  Claim C3, as the code has it. In every state the threads can reach, the capture callback
  returns without waiting and appends its block at the end of the capture queue, whose
  other items stay as they were: the queue has no bound (\<open>maxsize = 0\<close>), is never full, and
  nothing is ever dropped from it by the callback. Any run of callbacks extends the queue
  by all their blocks, in order.
\<close>

theorem capture_never_blocks_never_drops:
  assumes "run m sys_init evs = Some s"
  shows "\<exists>s'. sys_step m s (Callback blk) = Some s'
           \<and> items (raw_q s') = items (raw_q s) @ [blk]
           \<and> maxsize (raw_q s') = 0
           \<and> \<not> queue_full (raw_q s')
           \<and> audio_callbacks (raw_q s) blks = Some ((raw_q s)\<lparr>items := items (raw_q s) @ blks\<rparr>)"
proof -
  from run_inv [OF sys_inv_init assms] have unb: "maxsize (raw_q s) = 0"
    by (simp add: sys_inv_def)
  from sys_step_Callback [OF unb, of m blk] audio_callbacks_unbounded [OF unb, of blks] unb
  show ?thesis by (simp add: queue_full_def)
qed

text \<open>Two callbacks from the start, then a third.\<close>

theorem capture_never_blocks_never_drops_witness:
  "\<exists>s s'. run NoBackend sys_init [Callback (Frames2D [[1, 3]]), Callback (Frames1D [5])] = Some s
         \<and> sys_step NoBackend s (Callback (Frames1D [7])) = Some s'
         \<and> items (raw_q s') = [Frames2D [[1, 3]], Frames1D [5], Frames1D [7]]"
proof -
  have r: "run NoBackend sys_init [Callback (Frames2D [[1, 3]]), Callback (Frames1D [5])]
             = Some (sys_init\<lparr>raw_q := \<lparr>maxsize = 0, items = [Frames2D [[1, 3]], Frames1D [5]]\<rparr>\<rparr>)"
    by (simp add: sys_step_def audio_callback_def queue_put_def queue_full_def sys_init_def
        raw_q_init_def Queue_def)
  from capture_never_blocks_never_drops [OF r, of "Frames1D [7]"]
  obtain s' where "sys_step NoBackend
        (sys_init\<lparr>raw_q := \<lparr>maxsize = 0, items = [Frames2D [[1, 3]], Frames1D [5]]\<rparr>\<rparr>)
        (Callback (Frames1D [7])) = Some s'"
    and "items (raw_q s') = items (raw_q
        (sys_init\<lparr>raw_q := \<lparr>maxsize = 0, items = [Frames2D [[1, 3]], Frames1D [5]]\<rparr>\<rparr>))
          @ [Frames1D [7]]"
    by blast
  with r show ?thesis by simp
qed

text \<open>
  The queue as created is unbounded: three callbacks leave all three blocks queued, the
  oldest included, in a queue that is not full; and no capacity bounds its length.
\<close>

theorem capture_queue_unbounded_counterexample:
  "maxsize raw_q_init = 0
   \<and> audio_callbacks raw_q_init [Frames1D [1], Frames1D [2], Frames1D [3]]
       = Some \<lparr>maxsize = 0, items = [Frames1D [1], Frames1D [2], Frames1D [3]]\<rparr>
   \<and> \<not> queue_full \<lparr>maxsize = 0, items = [Frames1D [1], Frames1D [2], Frames1D [3]]\<rparr>
   \<and> \<not> (\<exists>cap. \<forall>blks q. audio_callbacks raw_q_init blks = Some q \<longrightarrow> length (items q) \<le> cap)"
proof -
  have unb: "maxsize raw_q_init = 0"
    by (simp add: raw_q_init_def Queue_def)
  have three: "audio_callbacks raw_q_init [Frames1D [1], Frames1D [2], Frames1D [3]]
       = Some \<lparr>maxsize = 0, items = [Frames1D [1], Frames1D [2], Frames1D [3]]\<rparr>"
    by (simp add: raw_q_init_def Queue_def audio_callback_def queue_put_def queue_full_def)
  have "\<not> (\<forall>blks q. audio_callbacks raw_q_init blks = Some q \<longrightarrow> length (items q) \<le> cap)" for cap
  proof
    assume a: "\<forall>blks q. audio_callbacks raw_q_init blks = Some q \<longrightarrow> length (items q) \<le> cap"
    have "audio_callbacks raw_q_init (replicate (Suc cap) (Frames1D []))
            = Some (raw_q_init\<lparr>items := items raw_q_init @ replicate (Suc cap) (Frames1D [])\<rparr>)"
      by (rule audio_callbacks_unbounded [OF unb])
    with a have "length (items (raw_q_init\<lparr>items := items raw_q_init @ replicate (Suc cap) (Frames1D [])\<rparr>)) \<le> cap"
      by blast
    then show False by simp
  qed
  with unb three show ?thesis by (simp add: queue_full_def)
qed

subsection \<open>C4\<close>

text \<open>
  Claim C4, on the code: when the transcription call of an iteration raises, the
  recognition thread ends with that exception, in the state it had before the iteration,
  whatever blocks would have followed. No later window is transcribed.
\<close>

theorem engine_failure_ends_thread:
  assumes "extract_window (append_trim (src_buffer st) blk) = Some (Inr w)"
    and "asr_transcribe_chunk m (calls st) w = Inl e"
  shows "asr_thread m st (blk # blks) = (Some e, st)"
  using asr_step_raise [OF assms] by simp

text \<open>
  The same blocks with a model that raises on its first call and would return \<open>hello\<close>
  on its second: the thread ends at the first window with nothing queued, although the
  second block completes a window that the model would have transcribed.
\<close>

theorem engine_failure_ends_thread_witness:
  "asr_thread
     (OpenaiWhisper (\<lambda>k w. if k = 0 then Inl EngineError else Inr (Some ''hello'')))
     asr_init [Frames2D (replicate 144000 [0, 0]), Frames2D (replicate 2400 [0, 0])]
   = (Some EngineError, asr_init)
   \<and> text_q asr_init = []
   \<and> (\<exists>wb. extract_window (append_trim (append_trim (src_buffer asr_init)
          (Frames2D (replicate 144000 [0, 0]))) (Frames2D (replicate 2400 [0, 0]))) = Some (Inr wb)
        \<and> asr_transcribe_chunk
            (OpenaiWhisper (\<lambda>k w. if k = 0 then Inl EngineError else Inr (Some ''hello'')))
            1 wb = Inr ''hello'')"
proof -
  define m where "m = OpenaiWhisper (\<lambda>k w. if k = 0 then Inl EngineError else Inr (Some ''hello''))"
  obtain wa where wa: "extract_window (append_trim (src_buffer asr_init)
      (Frames2D (replicate 144000 [0, 0]))) = Some (Inr wa)"
    using window_of_silence [of 144000] by (auto simp: asr_init_def)
  obtain wb where wb: "extract_window (append_trim (append_trim (src_buffer asr_init)
      (Frames2D (replicate 144000 [0, 0]))) (Frames2D (replicate 2400 [0, 0]))) = Some (Inr wb)"
    using window_after_silence [of 144000 2400] by (auto simp: asr_init_def)
  have ta: "asr_transcribe_chunk m (calls asr_init) wa = Inl EngineError"
    by (simp add: m_def asr_transcribe_chunk_def asr_init_def)
  have tb: "asr_transcribe_chunk m 1 wb = Inr ''hello''"
    by (simp add: m_def asr_transcribe_chunk_def or_empty_def strip_hello)
  have "text_q asr_init = []" by (simp add: asr_init_def)
  with engine_failure_ends_thread [OF wa ta, of "[Frames2D (replicate 2400 [0, 0])]"] wb tb
  show ?thesis unfolding m_def by blast
qed

subsection \<open>C5\<close>

text \<open>
  Claim C5, on the code: the span the recognition thread waits for is computed from the
  constant 48000 and not from the rate the capture thread opened the stream at. For a
  device whose default rate is 44100 Hz, three seconds are 132300 samples and the thread
  waits for 144000; the two agree for the rate 48000 only.
\<close>

theorem span_ignores_negotiated_rate:
  "audio_thread_src_sr \<lparr>default_samplerate = 44100, max_input_channels = 2\<rparr> = 44100
   \<and> nat (py_int ((BLOCK_SEC + OVERLAP_SEC)
        * real_of_int (audio_thread_src_sr \<lparr>default_samplerate = 44100, max_input_channels = 2\<rparr>)))
       = 132300
   \<and> need_src_len = 144000
   \<and> ((nat (py_int ((BLOCK_SEC + OVERLAP_SEC) * real_of_int sr)) = need_src_len) = (sr = 48000))"
proof -
  have a: "audio_thread_src_sr \<lparr>default_samplerate = 44100, max_input_channels = 2\<rparr> = 44100"
    by (simp add: audio_thread_src_sr_def py_int_def)
  have b: "nat (py_int ((BLOCK_SEC + OVERLAP_SEC) * real_of_int 44100)) = 132300"
    by (simp add: BLOCK_SEC_def OVERLAP_SEC_def py_int_def)
  have "(BLOCK_SEC + OVERLAP_SEC) * real_of_int sr = of_int (3 * sr)"
    by (simp add: BLOCK_SEC_def OVERLAP_SEC_def)
  then have "py_int ((BLOCK_SEC + OVERLAP_SEC) * real_of_int sr) = 3 * sr"
    by (simp only: py_int_def floor_of_int ceiling_of_int if_cancel)
  then have c: "(nat (py_int ((BLOCK_SEC + OVERLAP_SEC) * real_of_int sr)) = need_src_len) = (sr = 48000)"
    by (auto simp: need_src_len_val)
  from a b c show ?thesis by (simp add: need_src_len_val)
qed

subsection \<open>C6\<close>

text \<open>
  Claim C6. Under every schedule of the capture callback, the recognition thread, the end
  of a transcription call and the window's timer, the number of transcription calls in
  flight is at most 1 and has never been above 1; it is 1 exactly while the recognition
  thread is inside a call.
\<close>

theorem single_flight:
  assumes "run m sys_init evs = Some s"
  shows "depth s \<le> 1 \<and> max_depth s \<le> 1 \<and> (depth s = 1) = (\<exists>w. pc s = InCall w)"
proof -
  from run_inv [OF sys_inv_init assms] have "sys_inv s" .
  then show ?thesis
    by (cases "pc s") (simp_all add: sys_inv_def)
qed

text \<open>Three seconds of audio arrive and the recognition thread enters its first call.\<close>

theorem single_flight_witness:
  "\<exists>s w. run NoBackend sys_init [Callback (Frames2D (replicate 144000 [0, 0])), AsrPoll] = Some s
         \<and> pc s = InCall w \<and> depth s = 1 \<and> max_depth s \<le> 1"
proof -
  from run_to_first_call [of NoBackend]
  obtain s w where r: "run NoBackend sys_init [Callback (Frames2D (replicate 144000 [0, 0])), AsrPoll] = Some s"
    and w: "pc s = InCall w" by blast
  from single_flight [OF r] w have "depth s = 1" "max_depth s \<le> 1" by auto
  with r w show ?thesis by blast
qed

subsection \<open>C7\<close>

text \<open>
  Claim C7. Whatever blocks the recognition thread receives, and whatever the
  transcription calls do, its rolling buffer never holds more than \<open>48000 * 60\<close> samples
  after an iteration; and while the thread runs, the buffer is the most recent samples of
  everything appended so far: the oldest samples are the ones dropped.
\<close>

theorem rolling_buffer_capped:
  assumes "length (src_buffer st) \<le> 48000 * 60"
  shows "length (src_buffer (snd (asr_thread m st blks))) \<le> 48000 * 60
         \<and> (fst (asr_thread m st blks) = None \<longrightarrow>
              src_buffer (snd (asr_thread m st blks)) =
                drop (length (src_buffer st @ concat (map to_mono blks)) - 48000 * 60)
                  (src_buffer st @ concat (map to_mono blks)))"
proof -
  have "src_buffer (snd (asr_thread m st blks)) =
          drop (length (src_buffer st @ concat (map to_mono blks)) - 48000 * 60)
            (src_buffer st @ concat (map to_mono blks))"
    if "fst (asr_thread m st blks) = None"
    using asr_thread_buffer [OF that] foldl_append_trim [OF assms, of blks]
    by (simp add: py_tail_def)
  with asr_thread_buffer_length [OF assms] show ?thesis by blast
qed

text \<open>A stereo block of two frames and a flat block of one sample, from the empty buffer.\<close>

theorem rolling_buffer_capped_witness:
  "length (src_buffer asr_init) \<le> 48000 * 60
   \<and> fst (asr_thread NoBackend asr_init [Frames2D [[1, 3], [2, 4]], Frames1D [5]]) = None
   \<and> src_buffer (snd (asr_thread NoBackend asr_init [Frames2D [[1, 3], [2, 4]], Frames1D [5]])) = [2, 3, 5]"
proof -
  have h: "length (src_buffer asr_init) \<le> 48000 * 60"
    by (simp add: asr_init_def)
  have s1: "asr_step NoBackend asr_init (Frames2D [[1, 3], [2, 4]])
              = Inr (asr_init\<lparr>src_buffer := [2, 3]\<rparr>)"
    by (simp add: asr_step_short need_src_len_val length_append_trim append_trim_tail
        py_tail_def to_mono_def asr_init_def)
  have s2: "asr_step NoBackend (asr_init\<lparr>src_buffer := [2, 3]\<rparr>) (Frames1D [5])
              = Inr (asr_init\<lparr>src_buffer := [2, 3, 5]\<rparr>)"
    by (simp add: asr_step_short need_src_len_val length_append_trim append_trim_tail
        py_tail_def to_mono_def asr_init_def)
  have run: "fst (asr_thread NoBackend asr_init [Frames2D [[1, 3], [2, 4]], Frames1D [5]]) = None"
    by (simp add: s1 s2)
  from rolling_buffer_capped [OF h, of NoBackend "[Frames2D [[1, 3], [2, 4]], Frames1D [5]]"] run
  have "src_buffer (snd (asr_thread NoBackend asr_init [Frames2D [[1, 3], [2, 4]], Frames1D [5]]))
          = drop (length (src_buffer asr_init @ concat (map to_mono [Frames2D [[1, 3], [2, 4]], Frames1D [5]])) - 48000 * 60)
              (src_buffer asr_init @ concat (map to_mono [Frames2D [[1, 3], [2, 4]], Frames1D [5]]))"
    by blast
  also have "\<dots> = [2, 3, 5]"
    by (simp add: asr_init_def to_mono_def)
  finally show ?thesis using h run by blast
qed

subsection \<open>C8\<close>

text \<open>
  Claim C8. Starting from at most \<open>KEEP_LINES\<close> lines, after any sequence of queued texts
  the caption list holds at most \<open>KEEP_LINES\<close> lines: the last ones of the old lines
  followed by the trimmed non-blank texts, in their order (so the oldest are the ones
  evicted). \<open>KEEP_LINES\<close> is 4, and six non-blank texts appended to the empty list
  leave exactly the last four, in their order.
\<close>

theorem caption_sink_capped:
  assumes "length lines \<le> KEEP_LINES"
  shows "length (tick lines ts) \<le> KEEP_LINES
         \<and> tick lines ts =
             drop (length (lines @ map strip (filter (\<lambda>t. strip t \<noteq> []) ts)) - KEEP_LINES)
               (lines @ map strip (filter (\<lambda>t. strip t \<noteq> []) ts))
         \<and> KEEP_LINES = 4
         \<and> (lines = [] \<and> length ts = 6 \<and> (\<forall>t \<in> set ts. strip t \<noteq> [])
              \<longrightarrow> tick lines ts = map strip (drop 2 ts))"
proof -
  have pos: "0 < KEEP_LINES" by (simp add: KEEP_LINES_def)
  have eq: "tick lines ts =
              drop (length (lines @ map strip (filter (\<lambda>t. strip t \<noteq> []) ts)) - KEEP_LINES)
                (lines @ map strip (filter (\<lambda>t. strip t \<noteq> []) ts))"
    using tick_tail [OF assms, of ts] pos by (simp add: py_tail_def)
  have len: "length (tick lines ts) \<le> KEEP_LINES"
    using assms pos by (simp add: tick_tail py_tail_length)
  have "tick lines ts = map strip (drop 2 ts)"
    if "lines = []" "length ts = 6" "\<forall>t \<in> set ts. strip t \<noteq> []"
  proof -
    from that(3) have "filter (\<lambda>t. strip t \<noteq> []) ts = ts" by simp
    with eq that(1-2) show ?thesis by (simp add: drop_map KEEP_LINES_def)
  qed
  moreover have "KEEP_LINES = 4" by (simp add: KEEP_LINES_def)
  ultimately show ?thesis using eq len by blast
qed

text \<open>Six distinct lines.\<close>

theorem caption_sink_capped_witness:
  "length ([] :: string list) \<le> KEEP_LINES
   \<and> tick [] [''one'', ''two'', ''three'', ''four'', ''five'', ''six'']
       = [''three'', ''four'', ''five'', ''six'']"
proof -
  have h: "length ([] :: string list) \<le> KEEP_LINES" by simp
  have s: "map strip [''one'', ''two'', ''three'', ''four'', ''five'', ''six'']
             = [''one'', ''two'', ''three'', ''four'', ''five'', ''six'']"
    by (simp add: strip_def isspace_def)
  then have nb: "\<forall>t \<in> set [''one'', ''two'', ''three'', ''four'', ''five'', ''six'']. strip t \<noteq> []"
    by simp
  have len6: "length [''one'', ''two'', ''three'', ''four'', ''five'', ''six''] = 6" by simp
  from caption_sink_capped [OF h, of "[''one'', ''two'', ''three'', ''four'', ''five'', ''six'']"]
  have "[] = ([] :: string list)
          \<and> length [''one'', ''two'', ''three'', ''four'', ''five'', ''six''] = 6
          \<and> (\<forall>t \<in> set [''one'', ''two'', ''three'', ''four'', ''five'', ''six'']. strip t \<noteq> [])
        \<longrightarrow> tick [] [''one'', ''two'', ''three'', ''four'', ''five'', ''six'']
          = map strip (drop 2 [''one'', ''two'', ''three'', ''four'', ''five'', ''six''])"
    by blast
  with len6 nb
  have "tick [] [''one'', ''two'', ''three'', ''four'', ''five'', ''six'']
          = map strip (drop 2 [''one'', ''two'', ''three'', ''four'', ''five'', ''six''])"
    by blast
  also have "\<dots> = [''three'', ''four'', ''five'', ''six'']"
    using s by simp
  finally show ?thesis using h by blast
qed

subsection \<open>C9\<close>

text \<open>
  Claim C9. A queued text that is empty or all whitespace leaves the caption list as it
  was; a non-blank text is stored trimmed, as the last line (appended, when there is
  room). A window whose transcription is the empty text puts nothing on the text queue.
  So when two windows are transcribed in order, the first to the empty text and the
  second to \<open>hello\<close>, the queue holds \<open>hello\<close> alone, and the caption list after the next
  tick is the single line \<open>hello\<close>.
\<close>

theorem blank_text_never_shown:
  "(strip t = [] \<longrightarrow> tick_item lines t = lines)
   \<and> (strip t \<noteq> [] \<and> length lines < KEEP_LINES \<longrightarrow> tick_item lines t = lines @ [strip t])
   \<and> (strip t \<noteq> [] \<longrightarrow> tick_item lines t \<noteq> [] \<and> last (tick_item lines t) = strip t)
   \<and> (extract_window (append_trim (src_buffer st) blk) = Some (Inr w)
        \<and> asr_transcribe_chunk m (calls st) w = Inr []
       \<longrightarrow> (\<exists>st'. asr_step m st blk = Inr st' \<and> text_q st' = text_q st))
   \<and> (text_q st = []
        \<and> extract_window (append_trim (src_buffer st) a) = Some (Inr wa)
        \<and> asr_transcribe_chunk m (calls st) wa = Inr []
        \<and> extract_window (append_trim (append_trim (src_buffer st) a) b) = Some (Inr wb)
        \<and> asr_transcribe_chunk m (Suc (calls st)) wb = Inr ''hello''
       \<longrightarrow> (\<exists>st'. asr_thread m st [a, b] = (None, st') \<and> text_q st' = [''hello'']
                  \<and> tick [] (text_q st') = [''hello'']))"
proof -
  have discard: "\<exists>st'. asr_step m st blk = Inr st' \<and> text_q st' = text_q st"
    if "extract_window (append_trim (src_buffer st) blk) = Some (Inr w)"
      "asr_transcribe_chunk m (calls st) w = Inr []"
    using asr_step_empty_text [OF that] by simp
  have scenario: "\<exists>st'. asr_thread m st [a, b] = (None, st') \<and> text_q st' = [''hello'']
                  \<and> tick [] (text_q st') = [''hello'']"
    if q: "text_q st = []"
      and wa: "extract_window (append_trim (src_buffer st) a) = Some (Inr wa)"
      and ta: "asr_transcribe_chunk m (calls st) wa = Inr []"
      and wb: "extract_window (append_trim (append_trim (src_buffer st) a) b) = Some (Inr wb)"
      and tb: "asr_transcribe_chunk m (Suc (calls st)) wb = Inr ''hello''"
  proof -
    define st1 where "st1 = st\<lparr>src_buffer := append_trim (src_buffer st) a, calls := Suc (calls st)\<rparr>"
    have s1: "asr_step m st a = Inr st1"
      unfolding st1_def by (rule asr_step_empty_text [OF wa ta])
    have wb1: "extract_window (append_trim (src_buffer st1) b) = Some (Inr wb)"
      using wb by (simp add: st1_def)
    have tb1: "asr_transcribe_chunk m (calls st1) wb = Inr ''hello''"
      using tb by (simp add: st1_def)
    have s2: "asr_step m st1 b =
                Inr (st1\<lparr>src_buffer := append_trim (src_buffer st1) b,
                         text_q := text_q st1 @ [''hello''], calls := Suc (calls st1)\<rparr>)"
      by (rule asr_step_text [OF wb1 tb1]) simp
    have "tick [] [''hello''] = [''hello'']"
      by (simp add: tick_def tick_item_def strip_hello KEEP_LINES_def)
    with s1 s2 q show ?thesis by (simp add: st1_def)
  qed
  from tick_item_blank [of t lines] tick_item_room [of t lines] tick_item_last [of t lines]
    discard scenario
  show ?thesis by blast
qed

text \<open>
  Three seconds of stereo silence, then 50 ms more; the model returns the empty text on
  its first call and \<open>hello\<close> afterwards. The empty text and three spaces leave one line
  as it is, and \<open>hi\<close> between spaces is stored as \<open>hi\<close>; without a backend the first
  window puts nothing on the queue.
\<close>

theorem blank_text_never_shown_witness:
  "(\<exists>st'. asr_thread
            (OpenaiWhisper (\<lambda>k w. if k = 0 then Inr (Some []) else Inr (Some ''hello'')))
            asr_init [Frames2D (replicate 144000 [0, 0]), Frames2D (replicate 2400 [0, 0])]
          = (None, st')
        \<and> tick [] (text_q st') = [''hello''])
   \<and> tick_item [''hello''] [] = [''hello'']
   \<and> tick_item [''hello''] ''   '' = [''hello'']
   \<and> tick_item [''hello''] '' hi '' = [''hello'', ''hi'']
   \<and> (\<exists>st' w. extract_window (append_trim (src_buffer asr_init)
              (Frames2D (replicate 144000 [0, 0]))) = Some (Inr w)
          \<and> asr_step NoBackend asr_init (Frames2D (replicate 144000 [0, 0])) = Inr st'
          \<and> text_q st' = [])"
proof -
  define m where "m = OpenaiWhisper (\<lambda>k w. if k = 0 then Inr (Some []) else Inr (Some ''hello''))"
  obtain wa where wa: "extract_window (append_trim (src_buffer asr_init)
      (Frames2D (replicate 144000 [0, 0]))) = Some (Inr wa)"
    using window_of_silence [of 144000] by (auto simp: asr_init_def)
  obtain wb where wb: "extract_window (append_trim (append_trim (src_buffer asr_init)
      (Frames2D (replicate 144000 [0, 0]))) (Frames2D (replicate 2400 [0, 0]))) = Some (Inr wb)"
    using window_after_silence [of 144000 2400] by (auto simp: asr_init_def)
  have q: "text_q asr_init = []" by (simp add: asr_init_def)
  have ta: "asr_transcribe_chunk m (calls asr_init) wa = Inr []"
    by (simp add: m_def asr_transcribe_chunk_def asr_init_def or_empty_def strip_Nil)
  have tb: "asr_transcribe_chunk m (Suc (calls asr_init)) wb = Inr ''hello''"
    by (simp add: m_def asr_transcribe_chunk_def asr_init_def or_empty_def strip_hello)
  from blank_text_never_shown [of _ _ asr_init _ _ m
      "Frames2D (replicate 144000 [0, 0])" wa "Frames2D (replicate 2400 [0, 0])" wb]
    q wa ta wb tb
  have scenario: "\<exists>st'. asr_thread m asr_init
      [Frames2D (replicate 144000 [0, 0]), Frames2D (replicate 2400 [0, 0])] = (None, st')
        \<and> tick [] (text_q st') = [''hello'']"
    by blast
  have b1: "strip [] = []" and b2: "strip ''   '' = []" and b3: "strip '' hi '' = ''hi''"
    by (simp_all add: strip_def isspace_def)
  have k: "length [''hello''] < KEEP_LINES" by (simp add: KEEP_LINES_def)
  from blank_text_never_shown [of "[]" "[''hello'']"] b1
  have e1: "tick_item [''hello''] [] = [''hello'']" by blast
  from blank_text_never_shown [of "''   ''" "[''hello'']"] b2
  have e2: "tick_item [''hello''] ''   '' = [''hello'']" by blast
  from blank_text_never_shown [of "'' hi ''" "[''hello'']"] b3 k
  have e3: "tick_item [''hello''] '' hi '' = [''hello'', ''hi'']" by simp
  have tn: "asr_transcribe_chunk NoBackend (calls asr_init) wa = Inr []"
    by (simp add: asr_transcribe_chunk_def)
  from blank_text_never_shown [of _ _ asr_init "Frames2D (replicate 144000 [0, 0])" wa NoBackend]
    wa tn q
  have e4: "\<exists>st'. asr_step NoBackend asr_init (Frames2D (replicate 144000 [0, 0])) = Inr st'
      \<and> text_q st' = []"
    by simp
  from scenario e1 e2 e3 e4 wa show ?thesis unfolding m_def by blast
qed

subsection \<open>C10\<close>




end
